theory Spec2Isabelle
  imports Main "HOL-Library.AList" "HOL-Library.Char_ord" "HOL-Library.List_Lexorder"
begin

section \<open>Rule trees, object identity and the uuid store\<close>

text \<open>
  \<^verbatim>\<open>mergeAdvancedUUIDRules(oldRules, newRules)\<close> (src/index.js, lines 1328-1392) works on
  JavaScript objects: it reads the two trees, and the only assignments it makes to them are
  to \<^verbatim>\<open>uuid\<close> properties (lines 1377 and 1380). The embedding therefore splits a tree in two:

  \<^item> the part the function only reads is a datatype value: each rule node and each
    behavior or criterion carries the identity of its JavaScript object (a number) and the
    fields the function looks at;
  \<^item> the part the function writes, the \<^verbatim>\<open>uuid\<close> property of every object, lives in a
    store from object identities to values. Two occurrences of the same identity are the
    same object and share their uuid, as two references to one object do.

  A uuid is a string or absent (\<^verbatim>\<open>undefined\<close>, here \<open>None\<close>). A rule object and a
  behavior/criterion object are different kinds of object, hence the two constructors
  of \<open>ref\<close>.
\<close>

datatype ref = RuleObj nat | DirectiveObj nat

type_synonym juuid = "string option"

type_synonym store = "ref \<Rightarrow> juuid"

text \<open>
  The opaque payload of a behavior or criterion: \<^verbatim>\<open>options.xml\<close>, \<^verbatim>\<open>options.openXml\<close>,
  \<^verbatim>\<open>options.closeXml\<close>, each a string or absent. The other options are never read.
\<close>

record advOptions =
  xml :: "string option"
  openXml :: "string option"
  closeXml :: "string option"

datatype directive = Directive (d_id: nat) (d_name: string) (d_options: advOptions)

text \<open>
  A rule node. \<^verbatim>\<open>behaviors\<close> is an array, as the data model has it (the source calls
  \<^verbatim>\<open>ruleNode.behaviors.concat\<close> on it). An absent \<^verbatim>\<open>criteria\<close> or \<^verbatim>\<open>children\<close> behaves as the
  empty array does: \<^verbatim>\<open>concat(undefined)\<close> appends one \<^verbatim>\<open>undefined\<close> element, which the
  guard \<^verbatim>\<open>advNode &&\<close> skips, and \<^verbatim>\<open>if (ruleNode.children)\<close> skips absent children. Both
  are lists here.
\<close>

datatype rule =
  Rule (r_id: nat) (r_name: string) (behaviors: "directive list")
       (criteria: "directive list") (children: "rule list")

subsection \<open>The payload string and its grouping key\<close>

text \<open>
  \<^verbatim>\<open>'' + v\<close> for a string or absent \<^verbatim>\<open>v\<close>: JavaScript prints \<^verbatim>\<open>undefined\<close>.
\<close>

definition js_concat_empty :: "string option \<Rightarrow> string" where
  "js_concat_empty v = (case v of None \<Rightarrow> ''undefined'' | Some s \<Rightarrow> s)"

text \<open>
  Lines 1340-1342:
  \<^verbatim>\<open>let xml = advNode.options.xml || '' + advNode.options.openXml || '' + advNode.options.closeXml || '';\<close>
  In JavaScript \<^verbatim>\<open>+\<close> binds tighter than \<^verbatim>\<open>||\<close>, so this is
  \<^verbatim>\<open>options.xml || ('' + options.openXml) || ('' + options.closeXml) || ''\<close>:
  the first of the three strings that is not empty (a string is falsy exactly when it is
  empty; an absent \<^verbatim>\<open>xml\<close> is falsy too).
\<close>

definition adv_xml :: "advOptions \<Rightarrow> string" where
  "adv_xml opts =
     (let rest = (if js_concat_empty (openXml opts) \<noteq> [] then js_concat_empty (openXml opts)
                  else js_concat_empty (closeXml opts))
      in case xml opts of
           None \<Rightarrow> rest
         | Some s \<Rightarrow> if s \<noteq> [] then s else rest)"

text \<open>
  The payload as the specification words it: the concatenation of the three fields, an
  absent field contributing the empty string. Only used to compare with \<open>adv_xml\<close>.
\<close>

definition spec_payload :: "advOptions \<Rightarrow> string" where
  "spec_payload opts =
     (case xml opts of None \<Rightarrow> [] | Some s \<Rightarrow> s) @
     (case openXml opts of None \<Rightarrow> [] | Some s \<Rightarrow> s) @
     (case closeXml opts of None \<Rightarrow> [] | Some s \<Rightarrow> s)"

subsection \<open>Collecting the advanced entries: \<^verbatim>\<open>search\<close>\<close>

text \<open>
  The object literal \<^verbatim>\<open>foundNode\<close> of lines 1344-1350. \<^verbatim>\<open>advNode\<close> and the elements of
  \<^verbatim>\<open>parentRules\<close> are references: the identity of the directive object and of the rule
  objects. The digest function \<^verbatim>\<open>md5\<close> comes from the npm package of that name; it is a
  parameter of the model, of any result type \<open>'h\<close>.
\<close>

record 'h foundNode =
  fn_uuid :: juuid
  fn_xml :: string
  advNode :: nat
  parentRules :: "nat list"
  fn_md5 :: 'h

text \<open>
  \<^verbatim>\<open>found\<close> is a JavaScript object used as a dictionary from digest to array of entries.
  \<^verbatim>\<open>Object.keys\<close> lists string keys in insertion order, so it is an association list
  with one pair per key, in the order the keys were first stored.
\<close>

type_synonym 'h found = "('h \<times> 'h foundNode list) list"

definition is_advanced :: "directive \<Rightarrow> bool" where
  "is_advanced node \<longleftrightarrow> d_name node = ''advanced'' \<or> d_name node = ''matchAdvanced''"

text \<open>
  Lines 1352-1355: \<^verbatim>\<open>if (!found[md5]) found[md5] = []; found[md5].push(foundNode)\<close>.
\<close>

definition push_found :: "'h foundNode \<Rightarrow> 'h found \<Rightarrow> 'h found" where
  "push_found foundNode found =
     (case map_of found (fn_md5 foundNode) of
        None \<Rightarrow> found @ [(fn_md5 foundNode, [foundNode])]
      | Some ns \<Rightarrow> AList.update (fn_md5 foundNode) (ns @ [foundNode]) found)"

text \<open>
  The body of \<^verbatim>\<open>nodeList.forEach(advNode => ...)\<close>, lines 1336-1357, for the rule object
  \<open>rid\<close> and the element \<open>node\<close> (the source's variable \<^verbatim>\<open>advNode\<close>). The chain
  \<^verbatim>\<open>newParentRules\<close> gets the rule itself unless its uuid is the string \<^verbatim>\<open>default\<close>;
  \<open>entry_of\<close> is the object literal \<^verbatim>\<open>foundNode\<close>.
\<close>

definition newParentRules :: "store \<Rightarrow> nat \<Rightarrow> nat list \<Rightarrow> nat list" where
  "newParentRules st rid parents =
     (if st (RuleObj rid) \<noteq> Some ''default'' then parents @ [rid] else parents)"

definition entry_of :: "(string \<Rightarrow> 'h) \<Rightarrow> store \<Rightarrow> nat \<Rightarrow> nat list \<Rightarrow> directive \<Rightarrow> 'h foundNode" where
  "entry_of md5 st rid parents node =
     \<lparr> fn_uuid = st (DirectiveObj (d_id node)),
       fn_xml = adv_xml (d_options node),
       advNode = d_id node,
       parentRules = newParentRules st rid parents,
       fn_md5 = md5 (adv_xml (d_options node)) \<rparr>"

definition visit :: "(string \<Rightarrow> 'h) \<Rightarrow> store \<Rightarrow> nat \<Rightarrow> nat list \<Rightarrow> 'h found \<Rightarrow> directive \<Rightarrow> 'h found" where
  "visit md5 st rid parents found node =
     (if is_advanced node then push_found (entry_of md5 st rid parents node) found else found)"

text \<open>
  \<^verbatim>\<open>search(ruleNode, parentRules = [], found = {})\<close>, lines 1334-1366: the behaviors, then
  the criteria, then the children from left to right, all pushing into the one
  \<^verbatim>\<open>found\<close>.
\<close>

fun search :: "(string \<Rightarrow> 'h) \<Rightarrow> store \<Rightarrow> rule \<Rightarrow> nat list \<Rightarrow> 'h found \<Rightarrow> 'h found"
and search_children :: "(string \<Rightarrow> 'h) \<Rightarrow> store \<Rightarrow> rule list \<Rightarrow> nat list \<Rightarrow> 'h found \<Rightarrow> 'h found"
where
  "search md5 st (Rule rid nm bs cs chs) parents found =
     search_children md5 st chs (newParentRules st rid parents)
       (foldl (visit md5 st rid parents) found (bs @ cs))"
| "search_children md5 st [] parents found = found"
| "search_children md5 st (childRule # chs) parents found =
     search_children md5 st chs parents (search md5 st childRule parents found)"

subsection \<open>Matching new entries against old ones\<close>

text \<open>
  The \<^verbatim>\<open>Error\<close> thrown at line 1385; the string is its message.
\<close>

datatype error = UnmatchedAdvancedMetadata string

definition unmatched_message :: "string \<Rightarrow> string" where
  "unmatched_message payload =
     ''Cannot find Advanced Metadata in the destination rules. For safety, the Advanced behavior has to have been previously pushed on the destination config: '' @ payload"

text \<open>
  \<^verbatim>\<open>oldAdvMtdBehaviors[key] || []\<close>.
\<close>

definition group_of :: "'h found \<Rightarrow> 'h \<Rightarrow> 'h foundNode list" where
  "group_of found key = (case map_of found key of None \<Rightarrow> [] | Some ns \<Rightarrow> ns)"

text \<open>
  \<^verbatim>\<open>list.filter(x => x != oldAdvObject)\<close> where \<^verbatim>\<open>oldAdvObject\<close> is what
  \<^verbatim>\<open>list.find(p)\<close> returned: \<^verbatim>\<open>!=\<close> compares object identity, every entry is an
  object of its own, so exactly the first element satisfying \<open>p\<close> goes.
\<close>

fun remove_found :: "('a \<Rightarrow> bool) \<Rightarrow> 'a list \<Rightarrow> 'a list" where
  "remove_found p [] = []"
| "remove_found p (x # xs) = (if p x then xs else x # remove_found p xs)"

text \<open>
  Lines 1376-1378, the loop over \<^verbatim>\<open>i\<close>: each assignment reads the old rule's uuid from
  the store as it is at that moment. The two chains have the same length where this is
  called (that is what \<^verbatim>\<open>find\<close> tested).
\<close>

fun copy_chain :: "store \<Rightarrow> nat list \<Rightarrow> nat list \<Rightarrow> store" where
  "copy_chain st (n # ns) (p # ps) = copy_chain (st(RuleObj n := st (RuleObj p))) ns ps"
| "copy_chain st _ _ = st"

definition same_depth :: "'h foundNode \<Rightarrow> 'h foundNode \<Rightarrow> bool" where
  "same_depth newAdvObject x \<longleftrightarrow> length (parentRules newAdvObject) = length (parentRules x)"

text \<open>
  Lines 1375-1380: the chain of rule uuids is copied over, then the uuid of the behavior
  (read after the chain was written).
\<close>

definition copy_uuids :: "store \<Rightarrow> 'h foundNode \<Rightarrow> 'h foundNode \<Rightarrow> store" where
  "copy_uuids st newAdvObject oldAdvObject =
     (let st1 = copy_chain st (parentRules newAdvObject) (parentRules oldAdvObject)
      in st1(DirectiveObj (advNode newAdvObject) := st1 (DirectiveObj (advNode oldAdvObject))))"

text \<open>
  The body of the inner \<^verbatim>\<open>forEach\<close>, lines 1371-1386, on the store and on
  \<^verbatim>\<open>oldAdvMtdBehaviors\<close>. \<open>Inl\<close> is the throw.
\<close>

definition match_entry :: "'h \<Rightarrow> 'h foundNode \<Rightarrow> store \<Rightarrow> 'h found \<Rightarrow> error + store \<times> 'h found" where
  "match_entry key newAdvObject st oldAdv =
     (case find (same_depth newAdvObject) (group_of oldAdv key) of
        Some oldAdvObject \<Rightarrow>
          Inr (copy_uuids st newAdvObject oldAdvObject,
               AList.update key (remove_found (same_depth newAdvObject) (group_of oldAdv key)) oldAdv)
      | None \<Rightarrow> Inl (UnmatchedAdvancedMetadata (unmatched_message (fn_xml newAdvObject))))"

text \<open>
  The two nested \<^verbatim>\<open>forEach\<close> loops, lines 1369-1388. A throw ends both; the store keeps
  what was written before it. The result is the error (if any), the store and what is
  left of the old entries.
\<close>

fun forEach_entries :: "'h \<Rightarrow> 'h foundNode list \<Rightarrow> store \<Rightarrow> 'h found \<Rightarrow> error option \<times> store \<times> 'h found" where
  "forEach_entries key [] st oldAdv = (None, st, oldAdv)"
| "forEach_entries key (newAdvObject # rest) st oldAdv =
     (case match_entry key newAdvObject st oldAdv of
        Inl e \<Rightarrow> (Some e, st, oldAdv)
      | Inr (st', oldAdv') \<Rightarrow> forEach_entries key rest st' oldAdv')"

fun forEach_keys :: "'h found \<Rightarrow> store \<Rightarrow> 'h found \<Rightarrow> error option \<times> store \<times> 'h found" where
  "forEach_keys [] st oldAdv = (None, st, oldAdv)"
| "forEach_keys ((key, entries) # rest) st oldAdv =
     (case forEach_entries key entries st oldAdv of
        (Some e, st', oldAdv') \<Rightarrow> (Some e, st', oldAdv')
      | (None, st', oldAdv') \<Rightarrow> forEach_keys rest st' oldAdv')"

text \<open>
  \<^verbatim>\<open>static mergeAdvancedUUIDRules(oldRules, newRules)\<close>: both searches run on the store as
  it is at the call, then the loops; \<^verbatim>\<open>return newRules\<close> returns the reference it was
  given. The result pairs the outcome (the thrown error, or the returned reference) with
  the store afterwards.
\<close>

definition mergeAdvancedUUIDRules :: "(string \<Rightarrow> 'h) \<Rightarrow> store \<Rightarrow> rule \<Rightarrow> rule \<Rightarrow> (error + ref) \<times> store" where
  "mergeAdvancedUUIDRules md5 st oldRules newRules =
     (let oldAdvMtdBehaviors = search md5 st oldRules [] [];
          newAdvMtdBehaviors = search md5 st newRules [] []
      in case forEach_keys newAdvMtdBehaviors st oldAdvMtdBehaviors of
           (Some e, st', _) \<Rightarrow> (Inl e, st')
         | (None, st', _) \<Rightarrow> (Inr (RuleObj (r_id newRules)), st'))"

subsection \<open>What a tree contains\<close>

fun directives_of :: "rule \<Rightarrow> directive list"
and directives_of_children :: "rule list \<Rightarrow> directive list"
where
  "directives_of (Rule rid nm bs cs chs) = bs @ cs @ directives_of_children chs"
| "directives_of_children [] = []"
| "directives_of_children (c # chs) = directives_of c @ directives_of_children chs"

fun refs_of :: "rule \<Rightarrow> ref list"
and refs_of_children :: "rule list \<Rightarrow> ref list"
where
  "refs_of (Rule rid nm bs cs chs) =
     RuleObj rid # map (\<lambda>d. DirectiveObj (d_id d)) (bs @ cs) @ refs_of_children chs"
| "refs_of_children [] = []"
| "refs_of_children (c # chs) = refs_of c @ refs_of_children chs"

text \<open>
  The entries of a dictionary in the order the loops visit them.
\<close>

definition entries_of :: "'h found \<Rightarrow> 'h foundNode list" where
  "entries_of found = concat (map snd found)"

subsection \<open>Notions used to state and prove the properties\<close>

text \<open>
  The entries that \<open>search\<close> adds for a tree, in the order of the traversal and without
  the dictionary.
\<close>

fun collect :: "(string \<Rightarrow> 'h) \<Rightarrow> store \<Rightarrow> rule \<Rightarrow> nat list \<Rightarrow> 'h foundNode list"
and collect_children :: "(string \<Rightarrow> 'h) \<Rightarrow> store \<Rightarrow> rule list \<Rightarrow> nat list \<Rightarrow> 'h foundNode list"
where
  "collect md5 st (Rule rid nm bs cs chs) parents =
     map (entry_of md5 st rid parents) (filter is_advanced (bs @ cs)) @
     collect_children md5 st chs (newParentRules st rid parents)"
| "collect_children md5 st [] parents = []"
| "collect_children md5 st (c # chs) parents =
     collect md5 st c parents @ collect_children md5 st chs parents"

text \<open>
  What \<open>push_found\<close> maintains: one pair per key, no empty group, and every entry filed
  under its own digest.
\<close>

definition wf_found :: "'h found \<Rightarrow> bool" where
  "wf_found found \<longleftrightarrow>
     distinct (map fst found) \<and>
     (\<forall>k es. map_of found k = Some es \<longrightarrow> es \<noteq> [] \<and> (\<forall>m \<in> set es. fn_md5 m = k))"

text \<open>
  The objects whose uuid a match of the entry \<open>m\<close> assigns: its directive and the rules
  of its chain.
\<close>

definition objects_of :: "'h foundNode \<Rightarrow> ref set" where
  "objects_of m = insert (DirectiveObj (advNode m)) (RuleObj ` set (parentRules m))"

text \<open>
  Two entries compete for each other when they have the same digest and the same depth.
\<close>

definition same_class :: "'h foundNode \<Rightarrow> 'h foundNode \<Rightarrow> bool" where
  "same_class m x \<longleftrightarrow> fn_md5 x = fn_md5 m \<and> same_depth m x"

definition count_in :: "'h found \<Rightarrow> 'h \<Rightarrow> nat \<Rightarrow> nat" where
  "count_in found k d = length (filter (\<lambda>x. length (parentRules x) = d) (group_of found k))"

text \<open>
  The entries of a dictionary with the key they are filed under, in the order of the loops.
\<close>

definition keyed :: "'h found \<Rightarrow> ('h \<times> 'h foundNode) list" where
  "keyed found = concat (map (\<lambda>(k, es). map (Pair k) es) found)"

definition count_keyed :: "('h \<times> 'h foundNode) list \<Rightarrow> 'h \<Rightarrow> nat \<Rightarrow> nat" where
  "count_keyed kms k d = length (filter (\<lambda>(k', m). k' = k \<and> length (parentRules m) = d) kms)"

text \<open>
  The identities of the rules of a tree, the root first. A tree read from JSON has every
  object once: \<open>distinct (refs_of r)\<close>.
\<close>

fun rule_ids :: "rule \<Rightarrow> nat list"
and rule_ids_children :: "rule list \<Rightarrow> nat list"
where
  "rule_ids (Rule rid nm bs cs chs) = rid # rule_ids_children chs"
| "rule_ids_children [] = []"
| "rule_ids_children (c # chs) = rule_ids c @ rule_ids_children chs"

subsection \<open>Sample trees\<close>

text \<open>
  A store in which the root objects 0 and 100 carry the uuid \<^verbatim>\<open>default\<close> and every other
  object the uuid made of its kind and number.
\<close>

definition plain_options :: advOptions where
  "plain_options = \<lparr> xml = None, openXml = None, closeXml = None \<rparr>"

definition sample_store :: store where
  "sample_store =
     (\<lambda>r. None)
       (RuleObj 0 := Some ''default'', RuleObj 1 := Some ''new-1'', RuleObj 2 := Some ''new-2'',
        DirectiveObj 10 := Some ''new-b10'', DirectiveObj 11 := Some ''new-b11'',
        DirectiveObj 12 := Some ''new-b12'',
        RuleObj 100 := Some ''default'', RuleObj 101 := Some ''old-101'',
        RuleObj 102 := Some ''old-102'',
        DirectiveObj 110 := Some ''old-b110'', DirectiveObj 111 := Some ''old-b111'',
        DirectiveObj 112 := Some ''old-b112'')"

text \<open>
  A tree without advanced content: a root with one behavior and one child rule with one
  criterion.
\<close>

definition plain_new :: rule where
  "plain_new =
     Rule 0 ''default'' [Directive 10 ''caching'' plain_options] []
       [Rule 1 ''Performance'' [] [Directive 11 ''fileExtension'' plain_options] []]"

definition plain_old :: rule where
  "plain_old =
     Rule 100 ''default'' [Directive 110 ''caching'' plain_options] []
       [Rule 101 ''Offload'' [Directive 111 ''prefetch'' plain_options] [] []]"

text \<open>
  Trees with one advanced behavior two rules below the root: the old one, a new one with
  the same payload, and a new one with a payload the old tree does not have.
\<close>

definition adv_old :: rule where
  "adv_old =
     Rule 100 ''default'' [Directive 110 ''caching'' plain_options] []
       [Rule 101 ''Offload'' [] []
          [Rule 102 ''Legacy'' [Directive 112 ''advanced''
              \<lparr> xml = Some ''<x/>'', openXml = None, closeXml = None \<rparr>] [] []]]"

definition adv_new :: rule where
  "adv_new =
     Rule 0 ''default'' [Directive 10 ''caching'' plain_options] []
       [Rule 1 ''Offload'' [] []
          [Rule 2 ''Legacy'' [Directive 12 ''advanced''
              \<lparr> xml = Some ''<x/>'', openXml = None, closeXml = None \<rparr>] [] []]]"

definition unmatched_new :: rule where
  "unmatched_new =
     Rule 0 ''default'' [Directive 10 ''caching'' plain_options] []
       [Rule 1 ''Offload'' [] []
          [Rule 2 ''Legacy'' [Directive 12 ''advanced''
              \<lparr> xml = Some ''<y/>'', openXml = None, closeXml = None \<rparr>] [] []]]"

text \<open>
  Two advanced behaviors of the root whose payloads differ in \<^verbatim>\<open>openXml\<close> and
  \<^verbatim>\<open>closeXml\<close> only.
\<close>

definition wrapped_b :: advOptions where
  "wrapped_b = \<lparr> xml = Some ''<a/>'', openXml = Some ''<b>'', closeXml = Some ''</b>'' \<rparr>"

definition wrapped_c :: advOptions where
  "wrapped_c = \<lparr> xml = Some ''<a/>'', openXml = Some ''<c>'', closeXml = Some ''</c>'' \<rparr>"

definition wrapped_tree :: rule where
  "wrapped_tree =
     Rule 0 ''default'' [Directive 10 ''advanced'' wrapped_b, Directive 11 ''advanced'' wrapped_c] [] []"

text \<open>
  The entries \<open>search\<close> collects for the three trees, with the identity as digest.
\<close>

definition adv_old_entry :: "string foundNode" where
  "adv_old_entry =
     \<lparr> fn_uuid = Some ''old-b112'', fn_xml = ''<x/>'', advNode = 112,
       parentRules = [101, 102], fn_md5 = ''<x/>'' \<rparr>"

definition adv_new_entry :: "string foundNode" where
  "adv_new_entry =
     \<lparr> fn_uuid = Some ''new-b12'', fn_xml = ''<x/>'', advNode = 12,
       parentRules = [1, 2], fn_md5 = ''<x/>'' \<rparr>"

definition unmatched_new_entry :: "string foundNode" where
  "unmatched_new_entry =
     \<lparr> fn_uuid = Some ''new-b12'', fn_xml = ''<y/>'', advNode = 12,
       parentRules = [1, 2], fn_md5 = ''<y/>'' \<rparr>"

section \<open>The lookup cache and the activation calls\<close>

subsection \<open>Strings\<close>

text \<open>
  Strings are lists of characters; the texts the code handles here (names, ids, paths,
  JSON bodies) are taken to be ASCII, where a JavaScript string and a \<open>char list\<close>
  agree character by character.

  The regular-expression class \<^verbatim>\<open>\w\<close> is \<^verbatim>\<open>[A-Za-z0-9_]\<close>.
\<close>

definition lower_char :: "char \<Rightarrow> bool" where
  "lower_char c \<longleftrightarrow> c \<in> set ''abcdefghijklmnopqrstuvwxyz''"

definition upper_char :: "char \<Rightarrow> bool" where
  "upper_char c \<longleftrightarrow> c \<in> set ''ABCDEFGHIJKLMNOPQRSTUVWXYZ''"

definition digit_char :: "char \<Rightarrow> bool" where
  "digit_char c \<longleftrightarrow> c \<in> set ''0123456789''"

definition word_char :: "char \<Rightarrow> bool" where
  "word_char c \<longleftrightarrow> lower_char c \<or> upper_char c \<or> digit_char c \<or> c = CHR ''_''"

text \<open>
  Line 475 (and line 131): \<^verbatim>\<open>propertyLookup.replace(/[^\w.-]/gi, '_')\<close>. Every character
  that is not a word character, a dot or a hyphen becomes an underscore; the others stay.
\<close>

definition sanitize :: "string \<Rightarrow> string" where
  "sanitize s =
     map (\<lambda>c. if word_char c \<or> c = CHR ''.'' \<or> c = CHR ''-'' then c else CHR ''_'') s"

text \<open>
  \<^verbatim>\<open>s.includes(t)\<close>, and \<^verbatim>\<open>s.match(t)\<close>, \<^verbatim>\<open>s.indexOf(t) != -1\<close> and \<^verbatim>\<open>/t/.test(s)\<close> for
  a pattern \<open>t\<close> that is plain text (\<^verbatim>\<open>prp_\<close>, \<^verbatim>\<open>v2\<close>, \<^verbatim>\<open>property_version_not_active\<close>,
  \<^verbatim>\<open>application/json\<close>): does \<open>t\<close> occur in \<open>s\<close>.
\<close>

fun starts_with :: "string \<Rightarrow> string \<Rightarrow> bool" where
  "starts_with s [] = True"
| "starts_with [] (c # cs) = False"
| "starts_with (x # xs) (c # cs) = (x = c \<and> starts_with xs cs)"

fun js_includes :: "string \<Rightarrow> string \<Rightarrow> bool" where
  "js_includes [] t = (t = [])"
| "js_includes (x # xs) t = (starts_with (x # xs) t \<or> js_includes xs t)"

text \<open>
  Lines 904 and 950: \<^verbatim>\<open>link.match('activations/([a-z0-9_]+)\\b')\<close>, of which the code uses
  the group \<^verbatim>\<open>matches[1]\<close>. At the leftmost place where \<^verbatim>\<open>activations/\<close> stands, the group
  takes the longest run of characters of \<^verbatim>\<open>[a-z0-9_]\<close>; the run must not be empty, and
  \<^verbatim>\<open>\b\<close> wants the text to end there or to go on with a character that is not a word
  character (a shorter run would end between two word characters, so it never matches).
  Otherwise the search goes on to the right.
\<close>

definition id_char :: "char \<Rightarrow> bool" where
  "id_char c \<longleftrightarrow> lower_char c \<or> digit_char c \<or> c = CHR ''_''"

definition id_at :: "string \<Rightarrow> string option" where
  "id_at s =
     (if starts_with s ''activations/'' then
        (let rest = drop 12 s; run = takeWhile id_char rest; after = dropWhile id_char rest
         in if run \<noteq> [] \<and> (case after of [] \<Rightarrow> True | c # _ \<Rightarrow> \<not> word_char c)
            then Some run else None)
      else None)"

fun match_activation :: "string \<Rightarrow> string option" where
  "match_activation [] = None"
| "match_activation (x # xs) =
     (case id_at (x # xs) of Some run \<Rightarrow> Some run | None \<Rightarrow> match_activation xs)"

subsection \<open>Records, requests and responses\<close>

text \<open>
  A string-valued property of a JavaScript object is a string or absent (\<^verbatim>\<open>undefined\<close>);
  it is truthy when it is a non-empty string. A version is a number or absent.
\<close>

definition truthy :: "string option \<Rightarrow> bool" where
  "truthy v = (case v of None \<Rightarrow> False | Some s \<Rightarrow> s \<noteq> [])"

text \<open>
  A configuration record as the service returns it (the specification's ConfigRecord; its
  \<^verbatim>\<open>id\<close> and \<^verbatim>\<open>name\<close> are the fields \<^verbatim>\<open>propertyId\<close> and \<^verbatim>\<open>propertyName\<close> here). The items
  of a search result are read through the same three id fields.
\<close>

record property =
  propertyId :: "string option"
  groupId :: "string option"
  contractId :: "string option"
  propertyName :: "string option"
  latestVersion :: "int option"
  stagingVersion :: "int option"
  productionVersion :: "int option"

text \<open>
  Records are objects: the cache tables and the callers hold references to them, and
  \<^verbatim>\<open>activate\<close> assigns to a field of the record it resolved. A reference is a number, and
  the state maps references to the records' current fields.
\<close>

type_synonym pref = nat

record host =
  staging :: "pref option"
  production :: "pref option"

text \<open>
  What the caller passes as \<^verbatim>\<open>propertyLookup\<close>: a string, or a record object.
\<close>

datatype lookup = Name string | Record pref

record warning =
  messageId :: string
  detail :: string

record activation =
  status :: "string option"

text \<open>
  A parsed JSON body, as far as the code reads it; an absent member is \<open>None\<close>.
  \<open>activations\<close>, \<open>ruleFormats\<close>, \<open>versions\<close> and \<open>properties\<close> stand for the
  \<^verbatim>\<open>items\<close> array of the member of that name (the code reads nothing else of it, and
  fails in the same way whether the member or its \<^verbatim>\<open>items\<close> is missing).
\<close>

record payload =
  p_type :: "string option"
  warnings :: "warning list option"
  activationLink :: "string option"
  activations :: "activation list option"
  ruleFormats :: "string list option"
  versions :: "property list option"
  properties :: "property list option"

text \<open>
  The response the signed-HTTP client hands to the callback. \<open>json\<close> is what
  \<^verbatim>\<open>JSON.parse(response.body)\<close> returns, \<open>None\<close> when it throws; \<open>contentType\<close> is
  \<^verbatim>\<open>response.headers['content-type']\<close>.
\<close>

record response =
  statusCode :: nat
  contentType :: "string option"
  rs_body :: string
  json :: "payload option"

text \<open>
  The body of the activation request, lines 859-868 and 927-936 (the compliance record
  is a constant and left out), and of the search request.
\<close>

record activationData =
  propertyVersion :: "int option"
  network :: string
  note_text :: "string option"
  notifyEmails :: "string list"
  acknowledgeWarnings :: "string list option"
  activationType :: "string option"

datatype request_body = NoBody | Activation activationData | SearchBy string string

record request =
  rq_method :: string
  rq_path :: string
  rq_body :: request_body

text \<open>
  What a promise is rejected with.
\<close>

datatype rejection =
    RejResponse response
  | RejBody string
  | RejParsed payload
  | RejUndefined
  | RejMessage string
  | RejTypeError

text \<open>
  How a call ends: the promise resolves, it is rejected, the call throws before it
  returns a promise, or the promise never settles (the client never calls back, or the
  callback itself throws, which nothing catches).
\<close>

datatype 'a outcome = Resolved 'a | Rejected rejection | Threw | Unsettled

text \<open>
  Modelled from the spec: src/const.js, which defines \<^verbatim>\<open>LATEST_VERSION\<close> and \<^verbatim>\<open>AKAMAI_ENV\<close>,
  is not among the sources. Their members are parameters: three numbers and two
  environment names.
\<close>

record constants =
  LV_STAGING :: int
  LV_PRODUCTION :: int
  LV_LATEST :: int
  ENV_STAGING :: string
  ENV_PRODUCTION :: string

text \<open>
  The state: the fields of the \<^verbatim>\<open>EdgeGridProperty\<close> object that the calls below touch,
  the record objects, and the outside world. The tables are JavaScript objects used as
  dictionaries (own properties only: a key that names a member of \<^verbatim>\<open>Object.prototype\<close>,
  such as \<^verbatim>\<open>constructor\<close>, is outside the model).

  The remote service is a script: the responses it is going to give, in order, \<open>None\<close>
  for a request that gets no response (the client calls back with an error only). Each
  \<^verbatim>\<open>send\<close> takes the next one and logs the request. When the script is used up the client
  does not call back. \<open>slept\<close> adds up the milliseconds passed to \<^verbatim>\<open>sleep\<close>.
\<close>

record egp =
  objects :: "pref \<Rightarrow> property"
  fresh :: pref
  propertyById :: "(string \<times> pref) list"
  propertyByName :: "(string \<times> pref) list"
  propertyByHost :: "(string \<times> host) list"
  initComplete :: bool
  newestRulesFormat :: "string option"
  responses :: "response option list"
  requests :: "request list"
  slept :: nat

type_synonym 'a promise = "egp \<Rightarrow> 'a outcome \<times> egp"

text \<open>
  \<^verbatim>\<open>this._edge.auth(request); this._edge.send(callback)\<close>: \<open>None\<close> when the callback is
  never called, otherwise the \<^verbatim>\<open>response\<close> argument of the callback.
\<close>

definition send :: "request \<Rightarrow> egp \<Rightarrow> response option option \<times> egp" where
  "send rq s =
     (case responses s of
        [] \<Rightarrow> (None, s\<lparr>requests := requests s @ [rq]\<rparr>)
      | r # rs \<Rightarrow> (Some r, s\<lparr>requests := requests s @ [rq], responses := rs\<rparr>))"

text \<open>
  A call made inside a \<^verbatim>\<open>then\<close> callback: if it throws, the promise of the \<^verbatim>\<open>then\<close> is
  rejected with the exception.
\<close>

definition in_then :: "'a outcome \<times> egp \<Rightarrow> 'a outcome \<times> egp" where
  "in_then r = (case r of (Threw, s) \<Rightarrow> (Rejected RejTypeError, s) | _ \<Rightarrow> r)"

text \<open>
  \<^verbatim>\<open>p.then(f)\<close>.
\<close>

definition then_do :: "'a promise \<Rightarrow> ('a \<Rightarrow> 'b promise) \<Rightarrow> 'b promise" where
  "then_do p f s =
     (case p s of
        (Resolved v, s') \<Rightarrow> in_then (f v s')
      | (Rejected r, s') \<Rightarrow> (Rejected r, s')
      | (Threw, s') \<Rightarrow> (Threw, s')
      | (Unsettled, s') \<Rightarrow> (Unsettled, s'))"

text \<open>
  A template literal prints an absent value as \<^verbatim>\<open>undefined\<close>.
\<close>

definition activations_path :: "property \<Rightarrow> string" where
  "activations_path data =
     ''/papi/v1/properties/'' @ js_concat_empty (propertyId data) @
     ''/activations?contractId='' @ js_concat_empty (contractId data) @
     ''&groupId='' @ js_concat_empty (groupId data)"

definition activation_path :: "property \<Rightarrow> string \<Rightarrow> string" where
  "activation_path data activationID =
     ''/papi/v1/properties/'' @ js_concat_empty (propertyId data) @
     ''/activations/'' @ activationID @
     ''?contractId='' @ js_concat_empty (contractId data) @
     ''&groupId='' @ js_concat_empty (groupId data)"

definition property_path :: "string option \<Rightarrow> string option \<Rightarrow> string option \<Rightarrow> string" where
  "property_path pid gid cid =
     ''/papi/v1/properties/'' @ js_concat_empty pid @
     ''?contractId='' @ js_concat_empty cid @ ''&groupId='' @ js_concat_empty gid"

subsection \<open>Rule formats and \<^verbatim>\<open>_init\<close>\<close>

text \<open>
  \<^verbatim>\<open>_retrieveFormats()\<close>, lines 1427-1443. Reading \<^verbatim>\<open>response.statusCode\<close> of a missing
  response throws inside the callback.
\<close>

definition retrieveFormats_raw :: "payload promise" where
  "retrieveFormats_raw s =
     (case send \<lparr>rq_method = ''GET'', rq_path = ''/papi/v1/rule-formats'', rq_body = NoBody\<rparr> s of
        (None, s') \<Rightarrow> (Unsettled, s')
      | (Some None, s') \<Rightarrow> (Unsettled, s')
      | (Some (Some response), s') \<Rightarrow>
          if 200 \<le> statusCode response \<and> statusCode response < 400 then
            (case json response of
               None \<Rightarrow> (Unsettled, s')
             | Some parsed \<Rightarrow> (Resolved parsed, s'))
          else (Rejected (RejResponse response), s'))"

text \<open>
  \<^verbatim>\<open>retrieveFormats(latest)\<close>, lines 1461-1478, for \<^verbatim>\<open>latest = true\<close>, the only way
  \<^verbatim>\<open>_init\<close> calls it: the formats sorted, reversed, and the first one that contains
  \<^verbatim>\<open>v2\<close> (or nothing).
\<close>

definition retrieveFormats_latest :: "string option promise" where
  "retrieveFormats_latest =
     then_do retrieveFormats_raw (\<lambda>result s.
       case ruleFormats result of
         None \<Rightarrow> (Rejected RejTypeError, s)
       | Some items \<Rightarrow> (Resolved (find (\<lambda>rule. js_includes rule ''v2'') (rev (sort items))), s))"

text \<open>
  \<^verbatim>\<open>_init()\<close>, lines 79-92.
\<close>

definition init :: "unit promise" where
  "init s =
     (if initComplete s then (Resolved (), s)
      else if propertyById s \<noteq> [] then (Resolved (), s\<lparr>initComplete := True\<rparr>)
      else then_do retrieveFormats_latest
             (\<lambda>format s'. (Resolved (), s'\<lparr>newestRulesFormat := format\<rparr>)) s)"

subsection \<open>Searching the service: \<^verbatim>\<open>_findProperty\<close>\<close>

text \<open>
  \<^verbatim>\<open>_searchByValue(queryObj)\<close>, lines 382-401, for the one-member query \<open>{field: v}\<close>.
\<close>

definition searchByValue :: "string \<Rightarrow> string \<Rightarrow> payload promise" where
  "searchByValue field v s =
     (case send \<lparr>rq_method = ''POST'', rq_path = ''/papi/v1/search/find-by-value'',
                 rq_body = SearchBy field v\<rparr> s of
        (None, s') \<Rightarrow> (Unsettled, s')
      | (Some None, s') \<Rightarrow> (Rejected RejUndefined, s')
      | (Some (Some response), s') \<Rightarrow>
          if 200 \<le> statusCode response \<and> statusCode response < 400 then
            (case json response of
               None \<Rightarrow> (Unsettled, s')
             | Some parsed \<Rightarrow> (Resolved parsed, s'))
          else (Rejected (RejResponse response), s'))"

text \<open>
  \<^verbatim>\<open>_getPropertyMetadata\<close>, lines 403-419: the promise has no \<^verbatim>\<open>reject\<close>; it resolves with
  \<^verbatim>\<open>parsed.properties.items[0]\<close> (nothing, for an empty array) on a status from 200 to 399
  and never settles otherwise. The parsed record is a new object.
\<close>

definition getPropertyMetadata ::
  "string option \<Rightarrow> string option \<Rightarrow> string option \<Rightarrow> pref option promise" where
  "getPropertyMetadata pid gid cid s =
     (case send \<lparr>rq_method = ''GET'', rq_path = property_path pid gid cid, rq_body = NoBody\<rparr> s of
        (None, s') \<Rightarrow> (Unsettled, s')
      | (Some None, s') \<Rightarrow> (Unsettled, s')
      | (Some (Some response), s') \<Rightarrow>
          if 200 \<le> statusCode response \<and> statusCode response < 400 then
            (case json response of
               None \<Rightarrow> (Unsettled, s')
             | Some parsed \<Rightarrow>
                 (case properties parsed of
                    None \<Rightarrow> (Unsettled, s')
                  | Some [] \<Rightarrow> (Resolved None, s')
                  | Some (p # _) \<Rightarrow>
                      (Resolved (Some (fresh s')),
                       s'\<lparr>objects := (objects s')(fresh s' := p), fresh := Suc (fresh s')\<rparr>)))
          else (Unsettled, s'))"

text \<open>
  \<^verbatim>\<open>_findProperty(propertyLookup)\<close>, lines 421-469: search by property name, then by
  hostname, then by edge hostname, the first result with items winning; fetch the record
  of the first item and cache it by name and by id. A search result without
  \<^verbatim>\<open>versions.items\<close> makes \<^verbatim>\<open>data.versions.items.length\<close> throw.
\<close>

definition searched :: "string \<Rightarrow> string \<Rightarrow> payload option promise" where
  "searched field v s =
     (case searchByValue field v s of
        (Resolved d, s') \<Rightarrow> (Resolved (Some d), s')
      | (Rejected r, s') \<Rightarrow> (Rejected r, s')
      | (Threw, s') \<Rightarrow> (Threw, s')
      | (Unsettled, s') \<Rightarrow> (Unsettled, s'))"

definition cache_found :: "pref option \<Rightarrow> pref option promise" where
  "cache_found property s =
     (case property of
        None \<Rightarrow> (Resolved None, s)
      | Some p \<Rightarrow>
          (Resolved (Some p),
           s\<lparr>propertyByName :=
                AList.update (js_concat_empty (propertyName (objects s p))) p (propertyByName s),
              propertyById :=
                AList.update (js_concat_empty (propertyId (objects s p))) p (propertyById s)\<rparr>))"

definition findProperty :: "string \<Rightarrow> pref option promise" where
  "findProperty propertyLookup =
     then_do (then_do (then_do (then_do (then_do
       (searchByValue ''propertyName'' propertyLookup)
       (\<lambda>data s.
          case versions data of
            None \<Rightarrow> (Rejected RejTypeError, s)
          | Some items \<Rightarrow> if items = [] then (Resolved None, s) else (Resolved (Some data), s)))
       (\<lambda>data s.
          if (case data of
                None \<Rightarrow> False
              | Some d \<Rightarrow> (case versions d of None \<Rightarrow> False | Some items \<Rightarrow> items \<noteq> []))
          then (Resolved data, s)
          else searched ''hostname'' propertyLookup s))
       (\<lambda>data s.
          case data of
            None \<Rightarrow> searched ''edgeHostname'' propertyLookup s
          | Some d \<Rightarrow>
              (case versions d of
                 None \<Rightarrow> (Rejected RejTypeError, s)
               | Some items \<Rightarrow>
                   if items \<noteq> [] then (Resolved data, s)
                   else searched ''edgeHostname'' propertyLookup s)))
       (\<lambda>data s.
          case data of
            None \<Rightarrow> (Resolved None, s)
          | Some d \<Rightarrow>
              (case versions d of
                 None \<Rightarrow> (Rejected RejTypeError, s)
               | Some [] \<Rightarrow> (Resolved None, s)
               | Some (item # _) \<Rightarrow>
                   getPropertyMetadata (propertyId item) (groupId item) (contractId item) s)))
       cache_found"

subsection \<open>Resolving a lookup key: \<^verbatim>\<open>_getProperty\<close>\<close>

text \<open>
  Lines 478-484 and 498-504: by id, else by name, else through the host table, where the
  environment selects the staging or the production side.
\<close>

definition cache_lookup :: "constants \<Rightarrow> string \<Rightarrow> int \<Rightarrow> egp \<Rightarrow> pref option" where
  "cache_lookup c propertyLookup hostnameEnvironment s =
     (case map_of (propertyById s) propertyLookup of
        Some prop \<Rightarrow> Some prop
      | None \<Rightarrow>
          (case map_of (propertyByName s) propertyLookup of
             Some prop \<Rightarrow> Some prop
           | None \<Rightarrow>
               (case map_of (propertyByHost s) propertyLookup of
                  None \<Rightarrow> None
                | Some host \<Rightarrow>
                    if hostnameEnvironment = LV_STAGING c then staging host else production host)))"

text \<open>
  \<^verbatim>\<open>_getProperty(propertyLookup, hostnameEnvironment)\<close>, lines 471-512. A record object
  whose three ids are truthy comes back at once. Any other object has no \<^verbatim>\<open>replace\<close>, so
  line 475 throws; a string is sanitized and looked up.
\<close>

definition getProperty :: "constants \<Rightarrow> lookup \<Rightarrow> int \<Rightarrow> pref promise" where
  "getProperty c propertyLookup hostnameEnvironment s =
     (case propertyLookup of
        Record r \<Rightarrow>
          if truthy (groupId (objects s r)) \<and> truthy (propertyId (objects s r)) \<and>
             truthy (contractId (objects s r))
          then (Resolved r, s)
          else (Threw, s)
      | Name given \<Rightarrow>
          (let key = sanitize given in
           then_do (then_do init
             (\<lambda>_ s1.
                case cache_lookup c key hostnameEnvironment s1 of
                  Some prop \<Rightarrow> (Resolved (Some prop), s1)
                | None \<Rightarrow>
                    if js_includes key ''prp_'' then findProperty key s1
                    else (Resolved None, s1)))
             (\<lambda>prop s2.
                case prop of
                  Some p \<Rightarrow> (Resolved p, s2)
                | None \<Rightarrow>
                    (case cache_lookup c key hostnameEnvironment s2 of
                       Some p \<Rightarrow> (Resolved p, s2)
                     | None \<Rightarrow> (Rejected (RejMessage (''Cannot find property:  '' @ key)), s2)))
             s))"

subsection \<open>Requesting an activation: \<^verbatim>\<open>_activateProperty\<close>\<close>

text \<open>
  The request of lines 859-875, built from the record \<open>data\<close> that the lookup resolved to.
\<close>

definition activation_request ::
  "property \<Rightarrow> int option \<Rightarrow> string \<Rightarrow> string \<Rightarrow> string list \<Rightarrow> string list \<Rightarrow> request" where
  "activation_request data versionId env the_notes email acknowledged =
     \<lparr> rq_method = ''POST'',
       rq_path = activations_path data,
       rq_body = Activation
         \<lparr> propertyVersion = versionId, network = env, note_text = Some the_notes,
           notifyEmails = email, acknowledgeWarnings = Some acknowledged,
           activationType = None \<rparr> \<rparr>"

text \<open>
  Line 887: \<^verbatim>\<open>body.type && body.type.includes('warnings-not-acknowledged')\<close>.
\<close>

definition warnings_not_acknowledged :: "payload \<Rightarrow> bool" where
  "warnings_not_acknowledged body =
     (case p_type body of
        None \<Rightarrow> False
      | Some t \<Rightarrow> t \<noteq> [] \<and> js_includes t ''warnings-not-acknowledged'')"

text \<open>
  Lines 904 and 950: \<^verbatim>\<open>!body.activationLink ? null : body.activationLink.match(...)\<close>, and
  then \<^verbatim>\<open>matches[1]\<close>.
\<close>

definition activation_id_of :: "payload \<Rightarrow> string option" where
  "activation_id_of body =
     (case activationLink body of
        None \<Rightarrow> None
      | Some link \<Rightarrow> if link = [] then None else match_activation link)"

text \<open>
  What a lookup or a send leaves of the script.
\<close>

definition remaining :: "'a \<times> egp \<Rightarrow> nat" where
  "remaining r = length (responses (snd r))"

lemma send_remaining:
  "send rq s = (Some r, s') \<Longrightarrow> length (responses s') < length (responses s)"
  by (auto simp: send_def split: list.splits)

lemma send_remaining_le: "remaining (send rq s) \<le> length (responses s)"
  by (auto simp: send_def remaining_def split: list.splits)

lemma in_then_remaining [simp]: "remaining (in_then r) = remaining r"
  by (auto simp: in_then_def remaining_def split: prod.splits outcome.splits)

lemma then_do_remaining:
  assumes "\<And>s. remaining (p s) \<le> length (responses s)"
    and "\<And>v s. remaining (f v s) \<le> length (responses s)"
  shows "remaining (then_do p f s) \<le> length (responses s)"
proof (cases "p s")
  case (Pair r s')
  have a: "length (responses s') \<le> length (responses s)"
    using assms(1) [of s] Pair by (simp add: remaining_def)
  show ?thesis
  proof (cases r)
    case (Resolved v)
    have "remaining (f v s') \<le> length (responses s')" by (rule assms(2))
    then show ?thesis using Pair Resolved a by (simp add: then_do_def)
  qed (use Pair a in \<open>simp_all add: then_do_def remaining_def\<close>)
qed

lemma retrieveFormats_raw_remaining: "remaining (retrieveFormats_raw s) \<le> length (responses s)"
  using send_remaining_le [of "\<lparr>rq_method = ''GET'', rq_path = ''/papi/v1/rule-formats'', rq_body = NoBody\<rparr>" s]
  by (auto simp: retrieveFormats_raw_def remaining_def split: prod.splits option.splits)

lemma init_remaining: "remaining (init s) \<le> length (responses s)"
proof -
  have "remaining (retrieveFormats_latest s) \<le> length (responses s)" for s
    unfolding retrieveFormats_latest_def
    by (rule then_do_remaining)
       (auto simp: retrieveFormats_raw_remaining [unfolded remaining_def] remaining_def
             split: option.splits)
  then have "remaining (then_do retrieveFormats_latest
             (\<lambda>format s'. (Resolved (), s'\<lparr>newestRulesFormat := format\<rparr>)) s) \<le> length (responses s)"
    by (intro then_do_remaining) (auto simp: remaining_def)
  then show ?thesis by (auto simp: init_def remaining_def)
qed

lemma searchByValue_remaining: "remaining (searchByValue field v s) \<le> length (responses s)"
  using send_remaining_le [of "\<lparr>rq_method = ''POST'', rq_path = ''/papi/v1/search/find-by-value'',
                 rq_body = SearchBy field v\<rparr>" s]
  by (auto simp: searchByValue_def remaining_def split: prod.splits option.splits)

lemma getPropertyMetadata_remaining:
  "remaining (getPropertyMetadata pid gid cid s) \<le> length (responses s)"
  using send_remaining_le [of "\<lparr>rq_method = ''GET'', rq_path = property_path pid gid cid, rq_body = NoBody\<rparr>" s]
  by (auto simp: getPropertyMetadata_def remaining_def split: prod.splits option.splits list.splits)

lemma searched_remaining: "remaining (searched field v s) \<le> length (responses s)"
  using searchByValue_remaining [of field v s]
  by (auto simp: searched_def remaining_def split: prod.splits outcome.splits)

lemma findProperty_remaining: "remaining (findProperty key s) \<le> length (responses s)"
  unfolding findProperty_def
  by (intro then_do_remaining searchByValue_remaining)
     (auto simp: remaining_def cache_found_def
             getPropertyMetadata_remaining [unfolded remaining_def]
             searched_remaining [unfolded remaining_def]
           split: option.splits list.splits)

lemma getProperty_remaining:
  "remaining (getProperty c propertyLookup hostnameEnvironment s) \<le> length (responses s)"
proof (cases propertyLookup)
  case (Record r)
  then show ?thesis by (simp add: getProperty_def remaining_def)
next
  case (Name given)
  have "remaining (then_do (then_do init
             (\<lambda>_ s1.
                case cache_lookup c (sanitize given) hostnameEnvironment s1 of
                  Some prop \<Rightarrow> (Resolved (Some prop), s1)
                | None \<Rightarrow>
                    if js_includes (sanitize given) ''prp_'' then findProperty (sanitize given) s1
                    else (Resolved None, s1)))
             (\<lambda>prop s2.
                case prop of
                  Some p \<Rightarrow> (Resolved p, s2)
                | None \<Rightarrow>
                    (case cache_lookup c (sanitize given) hostnameEnvironment s2 of
                       Some p \<Rightarrow> (Resolved p, s2)
                     | None \<Rightarrow> (Rejected (RejMessage (''Cannot find property:  '' @ sanitize given)), s2)))
             s) \<le> length (responses s)"
    by (intro then_do_remaining init_remaining)
       (auto simp: remaining_def findProperty_remaining [unfolded remaining_def] split: option.splits)
  then show ?thesis using Name by (simp add: getProperty_def Let_def)
qed

lemma getProperty_remaining':
  "getProperty c propertyLookup hostnameEnvironment s = (r, s') \<Longrightarrow>
   length (responses s') \<le> length (responses s)"
  using getProperty_remaining [of c propertyLookup hostnameEnvironment s] by (simp add: remaining_def)

text \<open>
  \<^verbatim>\<open>_activateProperty(propertyLookup, versionId, env, notes, email, acknowledgeWarnings)\<close>,
  lines 849-913. The lookup is made with the default environment,
  \<^verbatim>\<open>LATEST_VERSION.STAGING\<close>. The callback (lines 877-884) resolves with the parsed body on
  a status from 200 to 400 inclusive and rejects with the raw body otherwise. When the
  parsed body says that warnings were not acknowledged, the message ids of all its
  warnings become the acknowledgment list of a new call with otherwise the same
  arguments (line 899); reading \<^verbatim>\<open>body.warnings.length\<close> of a body without warnings
  throws. The parameter \<^verbatim>\<open>autoAcceptWarnings\<close> is never read.
\<close>

function activateProperty ::
  "constants \<Rightarrow> lookup \<Rightarrow> int option \<Rightarrow> string \<Rightarrow> string \<Rightarrow> string list \<Rightarrow> string list \<Rightarrow> string promise"
where
  "activateProperty c propertyLookup versionId env the_notes email acknowledged s =
     (case getProperty c propertyLookup (LV_STAGING c) s of
        (Resolved data, s1) \<Rightarrow>
          (case send (activation_request (objects s1 data) versionId env the_notes email acknowledged) s1 of
             (None, s2) \<Rightarrow> (Unsettled, s2)
           | (Some None, s2) \<Rightarrow> (Unsettled, s2)
           | (Some (Some response), s2) \<Rightarrow>
               if 200 \<le> statusCode response \<and> statusCode response \<le> 400 then
                 (case json response of
                    None \<Rightarrow> (Unsettled, s2)
                  | Some body \<Rightarrow>
                      if warnings_not_acknowledged body then
                        (case warnings body of
                           None \<Rightarrow> (Rejected RejTypeError, s2)
                         | Some ws \<Rightarrow>
                             in_then (activateProperty c propertyLookup versionId env the_notes email
                                        (map messageId ws) s2))
                      else
                        (case activation_id_of body of
                           None \<Rightarrow> (Rejected (RejParsed body), s2)
                         | Some activationId \<Rightarrow> (Resolved activationId, s2)))
               else (Rejected (RejBody (rs_body response)), s2))
      | (Rejected e, s1) \<Rightarrow> (Rejected e, s1)
      | (Threw, s1) \<Rightarrow> (Threw, s1)
      | (Unsettled, s1) \<Rightarrow> (Unsettled, s1))"
  by pat_completeness auto
termination
proof (relation "measure (\<lambda>(c, l, v, e, n, m, a, s). length (responses s))", goal_cases)
  case 1
  show ?case by simp
next
  case (2 c propertyLookup versionId env the_notes email acknowledged s x1 s1 data r s2 r' response body ws)
  from 2 have "send (activation_request (objects s1 data) versionId env the_notes email acknowledged) s1 =
      (Some (Some response), s2)" by simp
  then have "length (responses s2) < length (responses s1)" by (rule send_remaining)
  moreover from 2 have "getProperty c propertyLookup (LV_STAGING c) s = (Resolved data, s1)" by simp
  then have "length (responses s1) \<le> length (responses s)" by (rule getProperty_remaining')
  ultimately show ?case by simp
qed

subsection \<open>Requesting a deactivation: \<^verbatim>\<open>_deactivateProperty\<close>\<close>

text \<open>
  The request of lines 927-941: no note and no acknowledgment list, and the activation
  type \<^verbatim>\<open>DEACTIVATE\<close>.
\<close>

definition deactivation_request :: "property \<Rightarrow> int option \<Rightarrow> string \<Rightarrow> string list \<Rightarrow> request" where
  "deactivation_request data versionId env email =
     \<lparr> rq_method = ''POST'',
       rq_path = activations_path data,
       rq_body = Activation
         \<lparr> propertyVersion = versionId, network = env, note_text = None,
           notifyEmails = email, acknowledgeWarnings = None,
           activationType = Some ''DEACTIVATE'' \<rparr> \<rparr>"

text \<open>
  \<^verbatim>\<open>_deactivateProperty(propertyLookup, versionId, env, notes, email)\<close>, lines 918-968. The
  callback, lines 945-965:
  \<^item> without a response it rejects with nothing (line 947; what follows throws, the
    promise is settled already);
  \<^item> on a status from 200 to 400 inclusive it parses the body and resolves with the
    activation id of its link, or rejects with the parsed body when there is none;
  \<^item> on any other status it resolves with nothing when the raw body contains
    \<^verbatim>\<open>property_version_not_active\<close>, and rejects with the raw body otherwise.
  One request is sent; there is no second call.
\<close>

definition deactivateProperty ::
  "constants \<Rightarrow> lookup \<Rightarrow> int option \<Rightarrow> string \<Rightarrow> string \<Rightarrow> string list \<Rightarrow> string option promise"
where
  "deactivateProperty c propertyLookup versionId env the_notes email s =
     (case getProperty c propertyLookup (LV_STAGING c) s of
        (Resolved data, s1) \<Rightarrow>
          (case send (deactivation_request (objects s1 data) versionId env email) s1 of
             (None, s2) \<Rightarrow> (Unsettled, s2)
           | (Some None, s2) \<Rightarrow> (Rejected RejUndefined, s2)
           | (Some (Some response), s2) \<Rightarrow>
               if 200 \<le> statusCode response \<and> statusCode response \<le> 400 then
                 (case json response of
                    None \<Rightarrow> (Unsettled, s2)
                  | Some parsed \<Rightarrow>
                      (case activation_id_of parsed of
                         None \<Rightarrow> (Rejected (RejParsed parsed), s2)
                       | Some activationId \<Rightarrow> (Resolved (Some activationId), s2)))
               else if js_includes (rs_body response) ''property_version_not_active''
               then (Resolved None, s2)
               else (Rejected (RejBody (rs_body response)), s2))
      | (Rejected e, s1) \<Rightarrow> (Rejected e, s1)
      | (Threw, s1) \<Rightarrow> (Threw, s1)
      | (Unsettled, s1) \<Rightarrow> (Unsettled, s1))"

subsection \<open>Polling: \<^verbatim>\<open>_pollActivation\<close>\<close>

text \<open>
  The loop of lines 1004-1009 over \<^verbatim>\<open>data.activations.items\<close>: \<^verbatim>\<open>pending\<close> becomes and
  stays true at the first item whose status is not \<^verbatim>\<open>ACTIVE\<close>; \<^verbatim>\<open>active\<close> is, after each
  item, whether nothing is pending and this item is \<^verbatim>\<open>ACTIVE\<close>.
\<close>

fun poll_flags :: "bool \<times> bool \<Rightarrow> activation list \<Rightarrow> bool \<times> bool" where
  "poll_flags (pending, active) [] = (pending, active)"
| "poll_flags (pending, active) (item # items) =
     (let pending' = (pending \<or> status item \<noteq> Some ''ACTIVE'');
          active' = (\<not> pending' \<and> status item = Some ''ACTIVE'')
      in poll_flags (pending', active') items)"

text \<open>
  The body that line 989 makes up for a 500 response.
\<close>

definition pending_body :: payload where
  "pending_body =
     \<lparr> p_type = None, warnings = None, activationLink = None,
       activations = Some [\<lparr> status = Some ''PENDING'' \<rparr>],
       ruleFormats = None, versions = None, properties = None \<rparr>"

definition poll_request :: "property \<Rightarrow> string \<Rightarrow> request" where
  "poll_request data activationID =
     \<lparr> rq_method = ''GET'', rq_path = activation_path data activationID, rq_body = NoBody \<rparr>"

text \<open>
  The callback of lines 983-999. On status 200 with a JSON content type it parses the
  body and resolves; the \<^verbatim>\<open>if\<close> that follows is not an \<^verbatim>\<open>else\<close>, but its \<^verbatim>\<open>reject\<close> comes
  after the promise is resolved and does nothing. Status 500 resolves with the made-up
  pending body. Everything else, a 200 without a JSON content type too, rejects with the
  response.
\<close>

definition poll_reply :: "response \<Rightarrow> (rejection + payload) option" where
  "poll_reply response =
     (if statusCode response = 200 \<and>
         js_includes (js_concat_empty (contentType response)) ''application/json''
      then (case json response of None \<Rightarrow> None | Some parsed \<Rightarrow> Some (Inr parsed))
      else if statusCode response = 500 then Some (Inr pending_body)
      else Some (Inl (RejResponse response)))"

text \<open>
  \<^verbatim>\<open>_pollActivation(propertyLookup, activationID)\<close>, lines 970-1021. While an item is not
  \<^verbatim>\<open>ACTIVE\<close> it sleeps 30000 ms and calls itself. \<open>poll_reply\<close> is \<open>None\<close> where
  \<^verbatim>\<open>JSON.parse\<close> throws in the callback, \<open>Inr\<close> where the callback resolves and \<open>Inl\<close>
  where it rejects.
\<close>

function pollActivation :: "constants \<Rightarrow> lookup \<Rightarrow> string \<Rightarrow> bool promise" where
  "pollActivation c propertyLookup activationID s =
     (case getProperty c propertyLookup (LV_STAGING c) s of
        (Resolved data, s1) \<Rightarrow>
          (case send (poll_request (objects s1 data) activationID) s1 of
             (None, s2) \<Rightarrow> (Unsettled, s2)
           | (Some None, s2) \<Rightarrow> (Unsettled, s2)
           | (Some (Some response), s2) \<Rightarrow>
               (case poll_reply response of
                  None \<Rightarrow> (Unsettled, s2)
                | Some (Inr data') \<Rightarrow>
                    (case activations data' of
                       None \<Rightarrow> (Rejected RejTypeError, s2)
                     | Some items \<Rightarrow>
                         (case poll_flags (False, False) items of
                            (True, _) \<Rightarrow>
                              in_then (pollActivation c propertyLookup activationID
                                         (s2\<lparr>slept := slept s2 + 30000\<rparr>))
                          | (False, True) \<Rightarrow> (Resolved True, s2)
                          | (False, False) \<Rightarrow> (Rejected (RejParsed data'), s2)))
                | Some (Inl e) \<Rightarrow> (Rejected e, s2)))
      | (Rejected e, s1) \<Rightarrow> (Rejected e, s1)
      | (Threw, s1) \<Rightarrow> (Threw, s1)
      | (Unsettled, s1) \<Rightarrow> (Unsettled, s1))"
  by pat_completeness auto
termination
proof (relation "measure (\<lambda>(c, l, a, s). length (responses s))", goal_cases)
  case 1
  show ?case by simp
next
  case (2 c propertyLookup activationID s x1 s1 data r s2 r' response x data' items x y)
  from 2 have "send (poll_request (objects s1 data) activationID) s1 = (Some (Some response), s2)"
    by simp
  then have "length (responses s2) < length (responses s1)" by (rule send_remaining)
  moreover from 2 have "getProperty c propertyLookup (LV_STAGING c) s = (Resolved data, s1)" by simp
  then have "length (responses s1) \<le> length (responses s)" by (rule getProperty_remaining')
  ultimately show ?case by simp
qed

subsection \<open>The public calls: \<^verbatim>\<open>activate\<close> and \<^verbatim>\<open>deactivate\<close>\<close>

text \<open>
  \<^verbatim>\<open>_getLatestVersion(property, env)\<close>, lines 596-606.
\<close>

definition getLatestVersion :: "constants \<Rightarrow> property \<Rightarrow> int \<Rightarrow> int option" where
  "getLatestVersion c property env =
     (if env = LV_PRODUCTION c then productionVersion property
      else if env = LV_STAGING c then stagingVersion property
      else if env = LV_LATEST c then latestVersion property
      else Some env)"

text \<open>
  What \<^verbatim>\<open>activate\<close> and \<^verbatim>\<open>deactivate\<close> resolve with: \<^verbatim>\<open>true\<close> from the polling, the
  activation id when the caller does not wait, or nothing.
\<close>

datatype answer = Polled bool | Submitted string | Nothing

definition polled :: "bool outcome \<times> egp \<Rightarrow> answer outcome \<times> egp" where
  "polled r =
     (case r of
        (Resolved b, s) \<Rightarrow> (Resolved (Polled b), s)
      | (Rejected e, s) \<Rightarrow> (Rejected e, s)
      | (Threw, s) \<Rightarrow> (Threw, s)
      | (Unsettled, s) \<Rightarrow> (Unsettled, s))"

text \<open>
  Lines 1695-1699 and 1737-1741: the assignment to the version field of the resolved
  record, which is the object the cache holds.
\<close>

definition set_version :: "constants \<Rightarrow> string \<Rightarrow> pref \<Rightarrow> int option \<Rightarrow> egp \<Rightarrow> egp" where
  "set_version c networkEnv property v s =
     (if networkEnv = ENV_STAGING c
      then s\<lparr>objects := (objects s)(property := (objects s property)\<lparr>stagingVersion := v\<rparr>)\<rparr>
      else s\<lparr>objects := (objects s)(property := (objects s property)\<lparr>productionVersion := v\<rparr>)\<rparr>)"


text \<open>
  \<^verbatim>\<open>deactivate(propertyLookup, networkEnv, notes, email, wait)\<close>, lines 1720-1747. The
  version is the one the record has for the environment, or 1 when it has none (or 0).
  When \<^verbatim>\<open>_deactivateProperty\<close> resolves with nothing, so does \<^verbatim>\<open>deactivate\<close>, and nothing
  else happens.
\<close>

definition deactivationVersion :: "constants \<Rightarrow> property \<Rightarrow> string \<Rightarrow> int" where
  "deactivationVersion c property networkEnv =
     (case getLatestVersion c property
             (if networkEnv = ENV_STAGING c then LV_STAGING c else LV_PRODUCTION c) of
        None \<Rightarrow> 1
      | Some v \<Rightarrow> if v = 0 then 1 else v)"

definition deactivate ::
  "constants \<Rightarrow> lookup \<Rightarrow> string \<Rightarrow> string \<Rightarrow> string list \<Rightarrow> bool \<Rightarrow> answer promise" where
  "deactivate c propertyLookup networkEnv the_notes email wait =
     then_do (getProperty c propertyLookup (LV_STAGING c))
       (\<lambda>property s.
          then_do
            (deactivateProperty c propertyLookup
               (Some (deactivationVersion c (objects s property) networkEnv))
               networkEnv the_notes email)
            (\<lambda>activationId s'.
               case activationId of
                 None \<Rightarrow> (Resolved Nothing, s')
               | Some a \<Rightarrow>
                   if a = [] then (Resolved Nothing, s')
                   else
                     (let s'' = set_version c networkEnv property None s'
                      in if wait then polled (pollActivation c propertyLookup a s'')
                         else (Resolved (Submitted a), s'')))
            s)"

declare activateProperty.simps [simp del]

declare pollActivation.simps [simp del]

subsection \<open>Sample states and responses\<close>

text \<open>
  Constants as the published module has them customarily: the three version selectors are
  distinct numbers that are not positive, the environments are named by their names.
  A state whose cache holds one record, object 5, under its id and under a name; and a
  state with an empty cache that has never been initialised, in which object 7 is the
  record \<open>{id: prp_1, groupId: grp_1, contractId: ctr_1}\<close> of the specification (its \<^verbatim>\<open>id\<close>
  being the field \<^verbatim>\<open>propertyId\<close>).
\<close>

definition sample_constants :: constants where
  "sample_constants =
     \<lparr> LV_STAGING = - 2, LV_PRODUCTION = - 1, LV_LATEST = 0,
       ENV_STAGING = ''STAGING'', ENV_PRODUCTION = ''PRODUCTION'' \<rparr>"

definition no_property :: property where
  "no_property =
     \<lparr> propertyId = None, groupId = None, contractId = None, propertyName = None,
       latestVersion = None, stagingVersion = None, productionVersion = None \<rparr>"

definition sample_property :: property where
  "sample_property =
     \<lparr> propertyId = Some ''prp_1'', groupId = Some ''grp_1'', contractId = Some ''ctr_1'',
       propertyName = Some ''my_example.com'', latestVersion = Some 3,
       stagingVersion = Some 2, productionVersion = None \<rparr>"

definition literal_record :: property where
  "literal_record =
     \<lparr> propertyId = Some ''prp_1'', groupId = Some ''grp_1'', contractId = Some ''ctr_1'',
       propertyName = None, latestVersion = None, stagingVersion = None,
       productionVersion = None \<rparr>"

definition named_state :: "string \<Rightarrow> response option list \<Rightarrow> egp" where
  "named_state name script =
     \<lparr> objects = (\<lambda>r. no_property)(5 := sample_property),
       fresh = 6,
       propertyById = [(''prp_1'', 5)],
       propertyByName = [(name, 5)],
       propertyByHost = [],
       initComplete = True,
       newestRulesFormat = Some [],
       responses = script,
       requests = [],
       slept = 0 \<rparr>"

definition sample_state :: "response option list \<Rightarrow> egp" where
  "sample_state script = named_state ''my_example.com'' script"

definition new_state :: "response option list \<Rightarrow> egp" where
  "new_state script =
     \<lparr> objects = (\<lambda>r. no_property)(7 := literal_record),
       fresh = 8,
       propertyById = [],
       propertyByName = [],
       propertyByHost = [],
       initComplete = False,
       newestRulesFormat = Some [],
       responses = script,
       requests = [],
       slept = 0 \<rparr>"

text \<open>
  Responses: a status report with one item, the answer to an accepted activation request
  (with its activation link), the answer that lists unacknowledged warnings, and the
  answer for a version that is not active, with a status code to choose. The raw bodies
  are abridged; \<open>json\<close> is what the code gets from parsing them.
\<close>

definition no_payload :: payload where
  "no_payload =
     \<lparr> p_type = None, warnings = None, activationLink = None, activations = None,
       ruleFormats = None, versions = None, properties = None \<rparr>"

definition status_body :: "string \<Rightarrow> payload" where
  "status_body st = no_payload \<lparr> activations := Some [\<lparr> status = Some st \<rparr>] \<rparr>"

definition status_response :: "string \<Rightarrow> response" where
  "status_response st =
     \<lparr> statusCode = 200, contentType = Some ''application/json'',
       rs_body = ''{activations: {items: [{status: '' @ st @ ''}]}}'',
       json = Some (status_body st) \<rparr>"

definition created_body :: payload where
  "created_body =
     no_payload \<lparr> activationLink :=
       Some ''/papi/v1/properties/prp_1/activations/atv_1?contractId=ctr_1&groupId=grp_1'' \<rparr>"

definition created_response :: response where
  "created_response =
     \<lparr> statusCode = 201, contentType = Some ''application/json'',
       rs_body = ''{activationLink: /papi/v1/properties/prp_1/activations/atv_1?contractId=ctr_1&groupId=grp_1}'',
       json = Some created_body \<rparr>"

definition warning_body :: "string list \<Rightarrow> payload" where
  "warning_body ids =
     no_payload
       \<lparr> p_type := Some ''https://problems.luna.akamaiapis.net/papi/v0/activation/warnings-not-acknowledged'',
         warnings := Some (map (\<lambda>i. \<lparr> messageId = i, detail = ''a warning'' \<rparr>) ids) \<rparr>"

definition warning_response :: "string list \<Rightarrow> response" where
  "warning_response ids =
     \<lparr> statusCode = 400, contentType = Some ''application/problem+json'',
       rs_body = ''{type: .../warnings-not-acknowledged, warnings: [...]}'',
       json = Some (warning_body ids) \<rparr>"

definition not_active_body :: payload where
  "not_active_body =
     no_payload \<lparr> p_type := Some ''https://problems.luna.akamaiapis.net/papi/v0/property_version_not_active'' \<rparr>"

definition not_active_response :: "nat \<Rightarrow> response" where
  "not_active_response code =
     \<lparr> statusCode = code, contentType = Some ''application/problem+json'',
       rs_body = ''{type: https://problems.luna.akamaiapis.net/papi/v0/property_version_not_active}'',
       json = Some not_active_body \<rparr>"

text \<open>
  The acknowledgment list a logged request carries, and the state after a \<^verbatim>\<open>send\<close> that
  got a response.
\<close>

definition acknowledged_in :: "request \<Rightarrow> string list option" where
  "acknowledged_in rq =
     (case rq_body rq of Activation d \<Rightarrow> acknowledgeWarnings d | _ \<Rightarrow> None)"

definition after_send :: "egp \<Rightarrow> request \<Rightarrow> response option list \<Rightarrow> egp" where
  "after_send s rq rest = s\<lparr>requests := requests s @ [rq], responses := rest\<rparr>"

section \<open>Lemmas on the collected entries\<close>

lemma wf_found_Nil: "wf_found []" by (simp add: wf_found_def)

lemma set_entries_of:
  "distinct (map fst found) \<Longrightarrow>
   set (entries_of found) = {m. \<exists>k es. map_of found k = Some es \<and> m \<in> set es}"
  by (auto simp: entries_of_def) blast

lemma map_of_push_found:
  "map_of (push_found n found) = (map_of found)(fn_md5 n \<mapsto> group_of found (fn_md5 n) @ [n])"
  by (auto simp: push_found_def group_of_def update_conv' map_add_def fun_eq_iff split: option.splits)

lemma distinct_push_found:
  "distinct (map fst found) \<Longrightarrow> distinct (map fst (push_found n found))"
  by (auto simp: push_found_def distinct_update map_of_eq_None_iff split: option.splits)

lemma push_found_wf: "wf_found found \<Longrightarrow> wf_found (push_found n found)"
  unfolding wf_found_def
  by (auto simp: map_of_push_found distinct_push_found group_of_def split: option.splits if_splits)

lemma set_entries_push_found:
  "distinct (map fst found) \<Longrightarrow>
   set (entries_of (push_found n found)) = insert n (set (entries_of found))"
  apply (auto simp: set_entries_of distinct_push_found map_of_push_found group_of_def
           split: option.splits if_splits)
  subgoal for x k es by (cases "k = fn_md5 n") auto
  done

lemma visit_wf: "wf_found found \<Longrightarrow> wf_found (visit md5 st rid parents found d)"
  by (simp add: visit_def push_found_wf)

lemma set_entries_visit:
  "distinct (map fst found) \<Longrightarrow>
   set (entries_of (visit md5 st rid parents found d)) =
     set (entries_of found) \<union> (if is_advanced d then {entry_of md5 st rid parents d} else {})"
  by (simp add: visit_def set_entries_push_found)

lemma foldl_visit_wf:
  "wf_found found \<Longrightarrow> wf_found (foldl (visit md5 st rid parents) found ds)"
  by (induction ds arbitrary: found) (simp_all add: visit_wf)

lemma set_entries_foldl_visit:
  "wf_found found \<Longrightarrow>
   set (entries_of (foldl (visit md5 st rid parents) found ds)) =
     set (entries_of found) \<union> entry_of md5 st rid parents ` set (filter is_advanced ds)"
proof (induction ds arbitrary: found)
  case Nil
  then show ?case by simp
next
  case (Cons d ds)
  have "distinct (map fst found)" using Cons.prems by (simp add: wf_found_def)
  then show ?case
    using Cons.IH [OF visit_wf [OF Cons.prems]]
    by (auto simp: set_entries_visit)
qed

lemma search_wf:
  "wf_found found \<longrightarrow> wf_found (search md5 st r parents found) \<and>
     set (entries_of (search md5 st r parents found)) =
       set (entries_of found) \<union> set (collect md5 st r parents)"
  "wf_found found \<longrightarrow> wf_found (search_children md5 st rs parents found) \<and>
     set (entries_of (search_children md5 st rs parents found)) =
       set (entries_of found) \<union> set (collect_children md5 st rs parents)"
proof (induction md5 st r parents found and md5 st rs parents found
       rule: search_search_children.induct)
  case (1 md5 st rid nm bs cs chs parents found)
  show ?case
  proof
    assume w: "wf_found found"
    let ?f = "foldl (visit md5 st rid parents) found (bs @ cs)"
    have wf: "wf_found ?f" using w by (rule foldl_visit_wf)
    have sf: "set (entries_of ?f) =
        set (entries_of found) \<union> entry_of md5 st rid parents ` set (filter is_advanced (bs @ cs))"
      using w by (rule set_entries_foldl_visit)
    from "1.IH" wf sf
    show "wf_found (search md5 st (Rule rid nm bs cs chs) parents found) \<and>
     set (entries_of (search md5 st (Rule rid nm bs cs chs) parents found)) =
       set (entries_of found) \<union> set (collect md5 st (Rule rid nm bs cs chs) parents)"
      by (simp add: Un_assoc image_Un)
  qed
next
  case (2 md5 st parents found)
  show ?case by simp
next
  case (3 md5 st childRule chs parents found)
  show ?case
  proof
    assume w: "wf_found found"
    with "3.IH"(1) have a: "wf_found (search md5 st childRule parents found)"
      and b: "set (entries_of (search md5 st childRule parents found)) =
       set (entries_of found) \<union> set (collect md5 st childRule parents)" by simp_all
    from "3.IH"(2) a b
    show "wf_found (search_children md5 st (childRule # chs) parents found) \<and>
     set (entries_of (search_children md5 st (childRule # chs) parents found)) =
       set (entries_of found) \<union> set (collect_children md5 st (childRule # chs) parents)"
      by (simp add: Un_assoc)
  qed
qed

lemma search_top_wf: "wf_found (search md5 st r [] [])"
  using search_wf(1) [of "[]" md5 st r "[]"] by (simp add: wf_found_Nil)

lemma search_top_entries: "set (entries_of (search md5 st r [] [])) = set (collect md5 st r [])"
  using search_wf(1) [of "[]" md5 st r "[]"] by (simp add: wf_found_Nil entries_of_def)


subsection \<open>The matching loops: frame, range and failure\<close>

lemma copy_chain_directive: "copy_chain st ns ps (DirectiveObj d) = st (DirectiveObj d)"
proof (induction st ns ps rule: copy_chain.induct)
  case (1 st n ns p ps)
  have "copy_chain st (n # ns) (p # ps) (DirectiveObj d) =
        copy_chain (st(RuleObj n := st (RuleObj p))) ns ps (DirectiveObj d)" by simp
  also have "\<dots> = (st(RuleObj n := st (RuleObj p))) (DirectiveObj d)" by (rule "1.IH")
  also have "\<dots> = st (DirectiveObj d)" by simp
  finally show ?case .
qed simp_all

lemma copy_chain_other: "r \<notin> set ns \<Longrightarrow> copy_chain st ns ps (RuleObj r) = st (RuleObj r)"
proof (induction st ns ps rule: copy_chain.induct)
  case (1 st n ns p ps)
  have "copy_chain st (n # ns) (p # ps) (RuleObj r) =
        copy_chain (st(RuleObj n := st (RuleObj p))) ns ps (RuleObj r)" by simp
  also have "\<dots> = (st(RuleObj n := st (RuleObj p))) (RuleObj r)"
    using "1.prems" by (intro "1.IH") simp
  also have "\<dots> = st (RuleObj r)" using "1.prems" by simp
  finally show ?case .
qed simp_all


lemma copy_chain_nth:
  "length ns = length ps \<Longrightarrow> distinct ns \<Longrightarrow> set ps \<inter> set ns = {} \<Longrightarrow> i < length ns \<Longrightarrow>
   copy_chain st ns ps (RuleObj (ns ! i)) = st (RuleObj (ps ! i))"
proof (induction st ns ps arbitrary: i rule: copy_chain.induct)
  case (1 st n ns p ps)
  show ?case
  proof (cases i)
    case 0
    then show ?thesis using "1.prems" by (simp add: copy_chain_other)
  next
    case (Suc j)
    have "copy_chain (st(RuleObj n := st (RuleObj p))) ns ps (RuleObj (ns ! j)) =
          (st(RuleObj n := st (RuleObj p))) (RuleObj (ps ! j))"
      using "1.prems" Suc by (intro "1.IH") auto
    moreover have "ps ! j \<noteq> n" using "1.prems" Suc by (auto simp: in_set_conv_nth)
    ultimately show ?thesis using Suc by simp
  qed
qed simp_all

lemma set_remove_found: "set (remove_found p xs) \<subseteq> set xs"
  by (induction xs) auto

lemma group_of_update:
  "group_of (AList.update key v oldAdv) k = (if k = key then v else group_of oldAdv k)"
  by (simp add: group_of_def update_conv')

lemma find_SomeD: "find p xs = Some x \<Longrightarrow> p x \<and> x \<in> set xs"
  by (induction xs) (auto split: if_splits)

lemma match_entry_Inr:
  assumes "match_entry key n st oldAdv = Inr (st', oldAdv')"
  shows "\<exists>x. find (same_depth n) (group_of oldAdv key) = Some x \<and>
    st' = copy_uuids st n x \<and>
    oldAdv' = AList.update key (remove_found (same_depth n) (group_of oldAdv key)) oldAdv"
  using assms by (auto simp: match_entry_def Let_def split: option.splits)

lemma match_entry_Inl:
  "match_entry key n st oldAdv = Inl e \<longleftrightarrow>
     (\<forall>x \<in> set (group_of oldAdv key). \<not> same_depth n x) \<and>
     e = UnmatchedAdvancedMetadata (unmatched_message (fn_xml n))"
  by (auto simp: match_entry_def Let_def find_None_iff split: option.splits dest: find_SomeD)

lemma match_entry_candidate:
  assumes "match_entry key n st oldAdv = Inr (st', oldAdv')"
  shows "\<exists>x \<in> set (group_of oldAdv key). same_depth n x"
proof -
  from match_entry_Inr [OF assms] obtain x where "find (same_depth n) (group_of oldAdv key) = Some x"
    by blast
  then show ?thesis by (auto dest: find_SomeD)
qed

lemma match_entry_groups:
  assumes "match_entry key n st oldAdv = Inr (st', oldAdv')"
  shows "set (group_of oldAdv' k) \<subseteq> set (group_of oldAdv k)"
proof -
  from match_entry_Inr [OF assms]
  have "oldAdv' = AList.update key (remove_found (same_depth n) (group_of oldAdv key)) oldAdv"
    by blast
  then show ?thesis using set_remove_found [of "same_depth n" "group_of oldAdv key"]
    by (auto simp: group_of_update)
qed

lemma match_entry_frame:
  assumes "match_entry key n st oldAdv = Inr (st', oldAdv')" and "ob \<notin> objects_of n"
  shows "st' ob = st ob"
proof -
  from match_entry_Inr [OF assms(1)]
  obtain x where st': "st' = copy_uuids st n x"
    by blast
  show ?thesis
  proof (cases ob)
    case (RuleObj r)
    then have "r \<notin> set (parentRules n)" using assms(2) by (auto simp: objects_of_def)
    then show ?thesis using RuleObj st' by (simp add: copy_uuids_def Let_def copy_chain_other)
  next
    case (DirectiveObj d)
    then have "d \<noteq> advNode n" using assms(2) by (auto simp: objects_of_def)
    then show ?thesis using DirectiveObj st' by (simp add: copy_uuids_def Let_def copy_chain_directive)
  qed
qed


lemma forEach_entries_groups:
  "forEach_entries key es st oldAdv = (r, st', oldAdv') \<Longrightarrow>
   set (group_of oldAdv' k) \<subseteq> set (group_of oldAdv k)"
proof (induction es arbitrary: st oldAdv)
  case Nil
  then show ?case by simp
next
  case (Cons n es)
  show ?case
  proof (cases "match_entry key n st oldAdv")
    case (Inl e)
    then show ?thesis using Cons.prems by simp
  next
    case (Inr p)
    obtain st1 old1 where p: "p = (st1, old1)" by (cases p)
    have "forEach_entries key es st1 old1 = (r, st', oldAdv')"
      using Cons.prems Inr p by simp
    then have "set (group_of oldAdv' k) \<subseteq> set (group_of old1 k)" by (rule Cons.IH)
    moreover have "set (group_of old1 k) \<subseteq> set (group_of oldAdv k)"
      using Inr p by (auto dest: match_entry_groups)
    ultimately show ?thesis by blast
  qed
qed

lemma forEach_entries_frame:
  "forEach_entries key es st oldAdv = (r, st', oldAdv') \<Longrightarrow>
   (\<forall>m \<in> set es. (\<exists>x \<in> set (group_of oldAdv key). same_depth m x) \<longrightarrow> ob \<notin> objects_of m) \<Longrightarrow>
   st' ob = st ob"
proof (induction es arbitrary: st oldAdv)
  case Nil
  then show ?case by simp
next
  case (Cons n es)
  show ?case
  proof (cases "match_entry key n st oldAdv")
    case (Inl e)
    then show ?thesis using Cons.prems by simp
  next
    case (Inr p)
    obtain st1 old1 where p: "p = (st1, old1)" by (cases p)
    have m: "match_entry key n st oldAdv = Inr (st1, old1)" using Inr p by simp
    have run: "forEach_entries key es st1 old1 = (r, st', oldAdv')"
      using Cons.prems m by simp
    have sub: "set (group_of old1 key) \<subseteq> set (group_of oldAdv key)"
      using m by (rule match_entry_groups)
    have "st' ob = st1 ob"
      using run
    proof (rule Cons.IH)
      show "\<forall>m\<in>set es. (\<exists>x\<in>set (group_of old1 key). same_depth m x) \<longrightarrow> ob \<notin> objects_of m"
        using Cons.prems(2) sub by auto
    qed
    moreover have "ob \<notin> objects_of n"
      using Cons.prems(2) match_entry_candidate [OF m] by simp
    then have "st1 ob = st ob" using m by (intro match_entry_frame)
    ultimately show ?thesis by simp
  qed
qed



lemma forEach_entries_error:
  "forEach_entries key es st oldAdv = (Some e, st', oldAdv') \<Longrightarrow>
   \<exists>m \<in> set es. e = UnmatchedAdvancedMetadata (unmatched_message (fn_xml m)) \<and>
      (\<forall>x \<in> set (group_of oldAdv' key). \<not> same_depth m x)"
proof (induction es arbitrary: st oldAdv)
  case Nil
  then show ?case by simp
next
  case (Cons a es)
  show ?case
  proof (cases "match_entry key a st oldAdv")
    case (Inl e')
    then have "e' = e" "oldAdv' = oldAdv" using Cons.prems by simp_all
    then show ?thesis using Inl by (auto simp: match_entry_Inl)
  next
    case (Inr p)
    obtain st1 old1 where p: "p = (st1, old1)" by (cases p)
    have "forEach_entries key es st1 old1 = (Some e, st', oldAdv')"
      using Cons.prems Inr p by simp
    from Cons.IH [OF this] show ?thesis by auto
  qed
qed

lemma forEach_keys_groups:
  "forEach_keys new st oldAdv = (r, st', oldAdv') \<Longrightarrow>
   set (group_of oldAdv' k) \<subseteq> set (group_of oldAdv k)"
proof (induction new arbitrary: st oldAdv)
  case Nil
  then show ?case by simp
next
  case (Cons a new)
  obtain key es where a: "a = (key, es)" by (cases a)
  obtain r1 st1 old1 where fe: "forEach_entries key es st oldAdv = (r1, st1, old1)"
    by (cases "forEach_entries key es st oldAdv")
  have g1: "set (group_of old1 k) \<subseteq> set (group_of oldAdv k)"
    using fe by (rule forEach_entries_groups)
  show ?case
  proof (cases r1)
    case None
    then have "forEach_keys new st1 old1 = (r, st', oldAdv')"
      using Cons.prems a fe by simp
    from Cons.IH [OF this] g1 show ?thesis by blast
  next
    case (Some e)
    then have "oldAdv' = old1" using Cons.prems a fe by simp
    then show ?thesis using g1 by simp
  qed
qed

lemma forEach_keys_frame:
  "forEach_keys new st oldAdv = (r, st', oldAdv') \<Longrightarrow>
   (\<forall>(key, es) \<in> set new. \<forall>m \<in> set es.
       (\<exists>x \<in> set (group_of oldAdv key). same_depth m x) \<longrightarrow> ob \<notin> objects_of m) \<Longrightarrow>
   st' ob = st ob"
proof (induction new arbitrary: st oldAdv)
  case Nil
  then show ?case by simp
next
  case (Cons a new)
  obtain key es where a: "a = (key, es)" by (cases a)
  obtain r1 st1 old1 where fe: "forEach_entries key es st oldAdv = (r1, st1, old1)"
    by (cases "forEach_entries key es st oldAdv")
  have s1: "st1 ob = st ob"
    using fe
  proof (rule forEach_entries_frame)
    show "\<forall>m\<in>set es. (\<exists>x\<in>set (group_of oldAdv key). same_depth m x) \<longrightarrow> ob \<notin> objects_of m"
      using Cons.prems(2) a by auto
  qed
  show ?case
  proof (cases r1)
    case None
    then have run: "forEach_keys new st1 old1 = (r, st', oldAdv')"
      using Cons.prems a fe by simp
    have "st' ob = st1 ob"
      using run
    proof (rule Cons.IH)
      show "\<forall>(key, es)\<in>set new. \<forall>m\<in>set es.
          (\<exists>x\<in>set (group_of old1 key). same_depth m x) \<longrightarrow> ob \<notin> objects_of m"
        using Cons.prems(2) forEach_entries_groups [OF fe] by fastforce
    qed
    then show ?thesis using s1 by simp
  next
    case (Some e)
    then have "st' = st1" using Cons.prems a fe by simp
    then show ?thesis using s1 by simp
  qed
qed



lemma forEach_keys_error:
  "forEach_keys new st oldAdv = (Some e, st', oldAdv') \<Longrightarrow>
   \<exists>(key, es) \<in> set new. \<exists>m \<in> set es.
      e = UnmatchedAdvancedMetadata (unmatched_message (fn_xml m)) \<and>
      (\<forall>x \<in> set (group_of oldAdv' key). \<not> same_depth m x)"
proof (induction new arbitrary: st oldAdv)
  case Nil
  then show ?case by simp
next
  case (Cons a new)
  obtain key1 es1 where a: "a = (key1, es1)" by (cases a)
  obtain r1 st1 old1 where fe: "forEach_entries key1 es1 st oldAdv = (r1, st1, old1)"
    by (cases "forEach_entries key1 es1 st oldAdv")
  show ?case
  proof (cases r1)
    case (Some e1)
    then have "forEach_entries key1 es1 st oldAdv = (Some e, st', oldAdv')"
      using Cons.prems a fe by simp
    from forEach_entries_error [OF this] show ?thesis using a by auto
  next
    case None
    then have "forEach_keys new st1 old1 = (Some e, st', oldAdv')"
      using Cons.prems a fe by simp
    from Cons.IH [OF this] show ?thesis by auto
  qed
qed

lemma wf_found_member:
  "wf_found found \<Longrightarrow> (key, es) \<in> set found \<Longrightarrow> m \<in> set es \<Longrightarrow>
   fn_md5 m = key \<and> m \<in> set (entries_of found)"
  unfolding wf_found_def by (force simp: entries_of_def)


lemma merge_cases:
  obtains (fail) e st' old' where
      "forEach_keys (search md5 st newRules [] []) st (search md5 st oldRules [] []) = (Some e, st', old')"
      "mergeAdvancedUUIDRules md5 st oldRules newRules = (Inl e, st')"
  | (ok) st' old' where
      "forEach_keys (search md5 st newRules [] []) st (search md5 st oldRules [] []) = (None, st', old')"
      "mergeAdvancedUUIDRules md5 st oldRules newRules = (Inr (RuleObj (r_id newRules)), st')"
proof -
  obtain r st' old' where
    fk: "forEach_keys (search md5 st newRules [] []) st (search md5 st oldRules [] []) = (r, st', old')"
    by (cases "forEach_keys (search md5 st newRules [] []) st (search md5 st oldRules [] [])")
  show thesis
  proof (cases r)
    case None
    then show ?thesis using fk ok by (simp add: mergeAdvancedUUIDRules_def)
  next
    case (Some e)
    then show ?thesis using fk fail by (simp add: mergeAdvancedUUIDRules_def)
  qed
qed

lemma newParentRules_members:
  "p \<in> set (newParentRules st rid parents) \<Longrightarrow>
   p \<in> set parents \<or> (p = rid \<and> st (RuleObj rid) \<noteq> Some ''default'')"
  by (auto simp: newParentRules_def split: if_splits)

lemma collect_objects:
  "\<forall>m \<in> set (collect md5 st r parents).
      DirectiveObj (advNode m) \<in> set (refs_of r) \<and>
      (\<forall>p \<in> set (parentRules m). p \<in> set parents \<or>
          (RuleObj p \<in> set (refs_of r) \<and> st (RuleObj p) \<noteq> Some ''default''))"
  "\<forall>m \<in> set (collect_children md5 st rs parents).
      DirectiveObj (advNode m) \<in> set (refs_of_children rs) \<and>
      (\<forall>p \<in> set (parentRules m). p \<in> set parents \<or>
          (RuleObj p \<in> set (refs_of_children rs) \<and> st (RuleObj p) \<noteq> Some ''default''))"
proof (induction md5 st r parents and md5 st rs parents rule: collect_collect_children.induct)
  case (1 md5 st rid nm bs cs chs parents)
  show ?case
  proof
    fix m
    assume "m \<in> set (collect md5 st (Rule rid nm bs cs chs) parents)"
    then consider (here) d where "d \<in> set (bs @ cs)" "m = entry_of md5 st rid parents d"
      | (below) "m \<in> set (collect_children md5 st chs (newParentRules st rid parents))"
      by auto
    then show "DirectiveObj (advNode m) \<in> set (refs_of (Rule rid nm bs cs chs)) \<and>
      (\<forall>p \<in> set (parentRules m). p \<in> set parents \<or>
          (RuleObj p \<in> set (refs_of (Rule rid nm bs cs chs)) \<and> st (RuleObj p) \<noteq> Some ''default''))"
    proof cases
      case here
      then show ?thesis
        by (auto simp: entry_of_def dest: newParentRules_members)
    next
      case below
      with "1.IH" have
        a: "DirectiveObj (advNode m) \<in> set (refs_of_children chs)" and
        b: "\<forall>p \<in> set (parentRules m). p \<in> set (newParentRules st rid parents) \<or>
          (RuleObj p \<in> set (refs_of_children chs) \<and> st (RuleObj p) \<noteq> Some ''default'')"
        by blast+
      show ?thesis
      proof (intro conjI ballI)
        show "DirectiveObj (advNode m) \<in> set (refs_of (Rule rid nm bs cs chs))" using a by simp
      next
        fix p assume "p \<in> set (parentRules m)"
        with b have "p \<in> set (newParentRules st rid parents) \<or>
          (RuleObj p \<in> set (refs_of_children chs) \<and> st (RuleObj p) \<noteq> Some ''default'')" by blast
        then show "p \<in> set parents \<or>
          (RuleObj p \<in> set (refs_of (Rule rid nm bs cs chs)) \<and> st (RuleObj p) \<noteq> Some ''default'')"
          by (auto dest: newParentRules_members)
      qed
    qed
  qed
next
  case (2 md5 st parents)
  show ?case by simp
next
  case (3 md5 st c chs parents)
  then show ?case by auto
qed

lemma search_top_objects:
  assumes "m \<in> set (entries_of (search md5 st r [] []))"
  shows "DirectiveObj (advNode m) \<in> set (refs_of r)"
    and "\<forall>p \<in> set (parentRules m). RuleObj p \<in> set (refs_of r) \<and> st (RuleObj p) \<noteq> Some ''default''"
  using assms collect_objects(1) [of md5 st r "[]"] by (auto simp: search_top_entries)

lemma collect_md5:
  "\<forall>m \<in> set (collect md5 st r parents). fn_md5 m = md5 (fn_xml m)"
  "\<forall>m \<in> set (collect_children md5 st rs parents). fn_md5 m = md5 (fn_xml m)"
  by (induction md5 st r parents and md5 st rs parents rule: collect_collect_children.induct)
     (auto simp: entry_of_def)

lemma search_top_md5:
  "m \<in> set (entries_of (search md5 st r [] [])) \<Longrightarrow> fn_md5 m = md5 (fn_xml m)"
  using collect_md5(1) [of md5 st r "[]"] by (simp add: search_top_entries)

lemma wf_found_group:
  "wf_found found \<Longrightarrow> (k, es) \<in> set found \<Longrightarrow> es \<noteq> [] \<and> (\<forall>m \<in> set es. fn_md5 m = k)"
  unfolding wf_found_def using map_of_is_SomeI by fastforce

lemma wf_found_single:
  assumes "wf_found found" and "entries_of found = [D]"
  shows "found = [(fn_md5 D, [D])]"
proof (cases found)
  case Nil
  then show ?thesis using assms(2) by (simp add: entries_of_def)
next
  case (Cons a rest)
  obtain k es where a: "a = (k, es)" by (cases a)
  have es: "es \<noteq> []" "\<forall>m \<in> set es. fn_md5 m = k"
    using wf_found_group [OF assms(1), of k es] Cons a by simp_all
  have cat: "es @ concat (map snd rest) = [D]"
    using assms(2) Cons a by (simp add: entries_of_def)
  with es(1) have e1: "es = [D]" and e2: "concat (map snd rest) = []"
    by (auto simp: append_eq_Cons_conv)
  have "rest = []"
  proof (cases rest)
    case Nil
    then show ?thesis .
  next
    case (Cons b rest')
    obtain k' es' where b: "b = (k', es')" by (cases b)
    have "es' \<noteq> []"
      using wf_found_group [OF assms(1), of k' es'] \<open>found = a # rest\<close> Cons b by simp
    then show ?thesis using e2 Cons b by simp
  qed
  then show ?thesis using Cons a e1 es(2) by simp
qed

subsection \<open>Counting the entries of a class\<close>

lemma remove_found_count:
  "find p xs = Some x \<Longrightarrow>
   length (filter q (remove_found p xs)) + (if q x then 1 else 0) = length (filter q xs)"
  by (induction xs) (auto split: if_splits)

lemma match_entry_count:
  assumes "match_entry key n st oldAdv = Inr (st', oldAdv')"
  shows "count_in oldAdv' k d + (if k = key \<and> d = length (parentRules n) then 1 else 0) =
         count_in oldAdv k d"
proof -
  from match_entry_Inr [OF assms] obtain x where
    f: "find (same_depth n) (group_of oldAdv key) = Some x" and
    o: "oldAdv' = AList.update key (remove_found (same_depth n) (group_of oldAdv key)) oldAdv"
    by blast
  have x: "length (parentRules x) = length (parentRules n)"
    using find_SomeD [OF f] by (simp add: same_depth_def)
  show ?thesis
  proof (cases "k = key")
    case False
    then show ?thesis using o by (simp add: count_in_def group_of_update)
  next
    case True
    from remove_found_count [OF f, of "\<lambda>x. length (parentRules x) = d"]
    show ?thesis using True o x by (auto simp: count_in_def group_of_update)
  qed
qed

lemma count_keyed_append [simp]:
  "count_keyed (xs @ ys) k d = count_keyed xs k d + count_keyed ys k d"
  by (simp add: count_keyed_def)

lemma count_keyed_Nil [simp]: "count_keyed [] k d = 0"
  by (simp add: count_keyed_def)

lemma count_keyed_Cons [simp]:
  "count_keyed ((k', m) # xs) k d =
     (if k' = k \<and> length (parentRules m) = d then 1 else 0) + count_keyed xs k d"
  by (simp add: count_keyed_def)

lemma forEach_entries_count:
  "forEach_entries key es st oldAdv = (r, st', oldAdv') \<Longrightarrow>
   \<exists>pre. (case r of
            None \<Rightarrow> pre = es
          | Some e \<Rightarrow> \<exists>m post. es = pre @ m # post \<and>
               e = UnmatchedAdvancedMetadata (unmatched_message (fn_xml m)) \<and>
               count_in oldAdv' key (length (parentRules m)) = 0) \<and>
          (\<forall>k d. count_in oldAdv' k d + count_keyed (map (Pair key) pre) k d = count_in oldAdv k d)"
proof (induction es arbitrary: st oldAdv)
  case Nil
  then show ?case by auto
next
  case (Cons a es)
  show ?case
  proof (cases "match_entry key a st oldAdv")
    case (Inl e')
    then have r: "r = Some e'" "oldAdv' = oldAdv" using Cons.prems by simp_all
    have "e' = UnmatchedAdvancedMetadata (unmatched_message (fn_xml a))"
      and "\<forall>x \<in> set (group_of oldAdv key). \<not> same_depth a x"
      using Inl by (simp_all add: match_entry_Inl)
    then have "count_in oldAdv key (length (parentRules a)) = 0"
      by (auto simp: count_in_def same_depth_def filter_empty_conv)
    then show ?thesis
      using r \<open>e' = _\<close> by (intro exI [of _ "[]"]) auto
  next
    case (Inr p)
    obtain st1 old1 where p: "p = (st1, old1)" by (cases p)
    have m: "match_entry key a st oldAdv = Inr (st1, old1)" using Inr p by simp
    have run: "forEach_entries key es st1 old1 = (r, st', oldAdv')"
      using Cons.prems m by simp
    from Cons.IH [OF run] obtain pre where
      pre: "case r of None \<Rightarrow> pre = es
          | Some e \<Rightarrow> \<exists>m post. es = pre @ m # post \<and>
               e = UnmatchedAdvancedMetadata (unmatched_message (fn_xml m)) \<and>
               count_in oldAdv' key (length (parentRules m)) = 0"
      and cnt: "\<forall>k d. count_in oldAdv' k d + count_keyed (map (Pair key) pre) k d = count_in old1 k d"
      by blast
    have "case r of None \<Rightarrow> a # pre = a # es
          | Some e \<Rightarrow> \<exists>m post. a # es = (a # pre) @ m # post \<and>
               e = UnmatchedAdvancedMetadata (unmatched_message (fn_xml m)) \<and>
               count_in oldAdv' key (length (parentRules m)) = 0"
      using pre by (auto split: option.splits)
    moreover have "\<forall>k d. count_in oldAdv' k d + count_keyed (map (Pair key) (a # pre)) k d =
        count_in oldAdv k d"
    proof (intro allI)
      fix k d
      from cnt have "count_in oldAdv' k d + count_keyed (map (Pair key) pre) k d = count_in old1 k d"
        by blast
      with match_entry_count [OF m, of k d]
      show "count_in oldAdv' k d + count_keyed (map (Pair key) (a # pre)) k d = count_in oldAdv k d"
        by auto
    qed
    ultimately show ?thesis by blast
  qed
qed

lemma keyed_Cons: "keyed ((k, es) # rest) = map (Pair k) es @ keyed rest"
  by (simp add: keyed_def)

lemma forEach_keys_count:
  "forEach_keys new st oldAdv = (r, st', oldAdv') \<Longrightarrow>
   \<exists>pre. (case r of
            None \<Rightarrow> pre = keyed new
          | Some e \<Rightarrow> \<exists>key m post. keyed new = pre @ (key, m) # post \<and>
               e = UnmatchedAdvancedMetadata (unmatched_message (fn_xml m)) \<and>
               count_in oldAdv' key (length (parentRules m)) = 0) \<and>
          (\<forall>k d. count_in oldAdv' k d + count_keyed pre k d = count_in oldAdv k d)"
proof (induction new arbitrary: st oldAdv)
  case Nil
  then show ?case by (auto simp: keyed_def)
next
  case (Cons a new)
  obtain key1 es1 where a: "a = (key1, es1)" by (cases a)
  obtain r1 st1 old1 where fe: "forEach_entries key1 es1 st oldAdv = (r1, st1, old1)"
    by (cases "forEach_entries key1 es1 st oldAdv")
  from forEach_entries_count [OF fe] obtain pre1 where
    pre1: "case r1 of None \<Rightarrow> pre1 = es1
          | Some e \<Rightarrow> \<exists>m post. es1 = pre1 @ m # post \<and>
               e = UnmatchedAdvancedMetadata (unmatched_message (fn_xml m)) \<and>
               count_in old1 key1 (length (parentRules m)) = 0"
    and cnt1: "\<forall>k d. count_in old1 k d + count_keyed (map (Pair key1) pre1) k d = count_in oldAdv k d"
    by blast
  show ?case
  proof (cases r1)
    case (Some e1)
    then have r: "r = Some e1" "oldAdv' = old1" using Cons.prems a fe by simp_all
    from pre1 Some obtain m post where
      m: "es1 = pre1 @ m # post" "e1 = UnmatchedAdvancedMetadata (unmatched_message (fn_xml m))"
         "count_in old1 key1 (length (parentRules m)) = 0" by auto
    have "keyed (a # new) = map (Pair key1) pre1 @ (key1, m) # (map (Pair key1) post @ keyed new)"
      using a m(1) by (simp add: keyed_Cons)
    then show ?thesis
      using r m(2,3) cnt1 by (intro exI [of _ "map (Pair key1) pre1"]) auto
  next
    case None
    then have run: "forEach_keys new st1 old1 = (r, st', oldAdv')"
      using Cons.prems a fe by simp
    from None pre1 have p1: "pre1 = es1" by simp
    from Cons.IH [OF run] obtain pre where
      pre: "case r of None \<Rightarrow> pre = keyed new
          | Some e \<Rightarrow> \<exists>key m post. keyed new = pre @ (key, m) # post \<and>
               e = UnmatchedAdvancedMetadata (unmatched_message (fn_xml m)) \<and>
               count_in oldAdv' key (length (parentRules m)) = 0"
      and cnt: "\<forall>k d. count_in oldAdv' k d + count_keyed pre k d = count_in old1 k d"
      by blast
    have "case r of None \<Rightarrow> map (Pair key1) es1 @ pre = keyed (a # new)
          | Some e \<Rightarrow> \<exists>key m post. keyed (a # new) = (map (Pair key1) es1 @ pre) @ (key, m) # post \<and>
               e = UnmatchedAdvancedMetadata (unmatched_message (fn_xml m)) \<and>
               count_in oldAdv' key (length (parentRules m)) = 0"
      using pre a by (auto simp: keyed_Cons split: option.splits)
    moreover have "\<forall>k d. count_in oldAdv' k d + count_keyed (map (Pair key1) es1 @ pre) k d =
        count_in oldAdv k d"
    proof (intro allI)
      fix k d
      from cnt have "count_in oldAdv' k d + count_keyed pre k d = count_in old1 k d" by blast
      moreover from cnt1 p1
      have "count_in old1 k d + count_keyed (map (Pair key1) es1) k d = count_in oldAdv k d" by blast
      ultimately show "count_in oldAdv' k d + count_keyed (map (Pair key1) es1 @ pre) k d =
          count_in oldAdv k d" by simp
    qed
    ultimately show ?thesis by blast
  qed
qed

lemma wf_found_Cons:
  assumes "wf_found ((k, es) # rest)"
  shows "wf_found rest" and "k \<notin> fst ` set rest" and "es \<noteq> []" and "\<forall>m \<in> set es. fn_md5 m = k"
proof -
  have d: "distinct (map fst ((k, es) # rest))" using assms by (simp add: wf_found_def)
  then show "k \<notin> fst ` set rest" by simp
  show "es \<noteq> []" "\<forall>m \<in> set es. fn_md5 m = k"
    using wf_found_group [OF assms, of k es] by simp_all
  show "wf_found rest"
    unfolding wf_found_def
  proof (intro conjI allI impI)
    show "distinct (map fst rest)" using d by simp
  next
    fix k' es' assume "map_of rest k' = Some es'"
    then have "(k', es') \<in> set ((k, es) # rest)" by (auto dest: map_of_SomeD)
    from wf_found_group [OF assms this]
    show "es' \<noteq> []" "\<forall>m\<in>set es'. fn_md5 m = k'" by simp_all
  qed
qed

lemma keyed_wf: "wf_found found \<Longrightarrow> keyed found = map (\<lambda>m. (fn_md5 m, m)) (entries_of found)"
proof (induction found)
  case Nil
  then show ?case by (simp add: keyed_def entries_of_def)
next
  case (Cons a found)
  obtain k es where a: "a = (k, es)" by (cases a)
  have w: "wf_found found" and m: "\<forall>m \<in> set es. fn_md5 m = k"
    using wf_found_Cons [of k es found] Cons.prems a by simp_all
  have "map (Pair k) es = map (\<lambda>m. (fn_md5 m, m)) es" using m by simp
  then show ?case using Cons.IH [OF w] a by (simp add: keyed_Cons entries_of_def)
qed

lemma group_of_Cons: "group_of ((k1, es) # rest) k = (if k = k1 then es else group_of rest k)"
  by (simp add: group_of_def)

lemma group_of_absent: "k \<notin> fst ` set found \<Longrightarrow> group_of found k = []"
  by (simp add: group_of_def map_of_eq_None_iff [THEN iffD2])

lemma wf_group_filter:
  "wf_found found \<Longrightarrow> group_of found k = filter (\<lambda>x. fn_md5 x = k) (entries_of found)"
proof (induction found)
  case Nil
  then show ?case by (simp add: group_of_def entries_of_def)
next
  case (Cons a found)
  obtain k1 es where a: "a = (k1, es)" by (cases a)
  have w: "wf_found found" and nk: "k1 \<notin> fst ` set found" and m: "\<forall>m \<in> set es. fn_md5 m = k1"
    using wf_found_Cons [of k1 es found] Cons.prems a by simp_all
  have ih: "group_of found k = filter (\<lambda>x. fn_md5 x = k) (entries_of found)"
    using w by (rule Cons.IH)
  have e: "entries_of (a # found) = es @ entries_of found" using a by (simp add: entries_of_def)
  show ?case
  proof (cases "k = k1")
    case True
    have "filter (\<lambda>x. fn_md5 x = k) es = es" using m True by (simp add: filter_id_conv)
    moreover have "filter (\<lambda>x. fn_md5 x = k) (entries_of found) = []"
      using ih True group_of_absent [OF nk] by simp
    ultimately show ?thesis using True a e by (simp add: group_of_Cons)
  next
    case False
    have "filter (\<lambda>x. fn_md5 x = k) es = []" using m False by (auto simp: filter_empty_conv)
    then show ?thesis using False a e ih by (simp add: group_of_Cons)
  qed
qed

lemma same_class_fun:
  "same_class m = (\<lambda>x. fn_md5 x = fn_md5 m \<and> length (parentRules x) = length (parentRules m))"
  by (auto simp: same_class_def same_depth_def fun_eq_iff)

lemma count_in_wf:
  "wf_found found \<Longrightarrow>
   count_in found (fn_md5 m) (length (parentRules m)) =
     length (filter (same_class m) (entries_of found))"
  by (simp add: count_in_def wf_group_filter same_class_fun conj_commute)

lemma count_keyed_wf:
  "wf_found found \<Longrightarrow>
   count_keyed (keyed found) (fn_md5 m) (length (parentRules m)) =
     length (filter (same_class m) (entries_of found))"
  by (simp add: count_keyed_def keyed_wf filter_map comp_def same_class_fun)


lemma forEach_keys_served_once:
  assumes fk: "forEach_keys new st oldAdv = (None, st', oldAdv')"
    and wn: "wf_found new" and wo: "wf_found oldAdv"
  shows "length (filter (same_class m) (entries_of new)) \<le>
           length (filter (same_class m) (entries_of oldAdv))"
proof -
  from forEach_keys_count [OF fk]
  have "count_in oldAdv' (fn_md5 m) (length (parentRules m)) +
        count_keyed (keyed new) (fn_md5 m) (length (parentRules m)) =
        count_in oldAdv (fn_md5 m) (length (parentRules m))"
    by auto
  then show ?thesis
    by (simp add: count_in_wf [OF wo, symmetric] count_keyed_wf [OF wn, symmetric])
qed

subsection \<open>Trees in which every object occurs once\<close>



lemma rule_ids_refs:
  "RuleObj ` set (rule_ids r) \<subseteq> set (refs_of r)"
  "RuleObj ` set (rule_ids_children rs) \<subseteq> set (refs_of_children rs)"
  by (induction r and rs rule: rule_ids_rule_ids_children.induct) auto

lemma distinct_refs_rule_ids:
  "distinct (refs_of r) \<longrightarrow> distinct (rule_ids r)"
  "distinct (refs_of_children rs) \<longrightarrow> distinct (rule_ids_children rs)"
proof (induction r and rs rule: rule_ids_rule_ids_children.induct)
  case (1 rid nm bs cs chs)
  then show ?case using rule_ids_refs(2) [of chs] by auto
next
  case 2
  show ?case by simp
next
  case (3 c chs)
  then show ?case using rule_ids_refs(1) [of c] rule_ids_refs(2) [of chs] by auto
qed

lemma collect_chain_distinct:
  "distinct (rule_ids r) \<longrightarrow> distinct parents \<longrightarrow> set parents \<inter> set (rule_ids r) = {} \<longrightarrow>
     (\<forall>m \<in> set (collect md5 st r parents). distinct (parentRules m))"
  "distinct (rule_ids_children rs) \<longrightarrow> distinct parents \<longrightarrow>
     set parents \<inter> set (rule_ids_children rs) = {} \<longrightarrow>
     (\<forall>m \<in> set (collect_children md5 st rs parents). distinct (parentRules m))"
proof (induction md5 st r parents and md5 st rs parents rule: collect_collect_children.induct)
  case (1 md5 st rid nm bs cs chs parents)
  show ?case
  proof (intro impI ballI)
    fix m
    assume d: "distinct (rule_ids (Rule rid nm bs cs chs))" and p: "distinct parents"
      and i: "set parents \<inter> set (rule_ids (Rule rid nm bs cs chs)) = {}"
      and m: "m \<in> set (collect md5 st (Rule rid nm bs cs chs) parents)"
    have np: "distinct (newParentRules st rid parents)"
      using p i by (auto simp: newParentRules_def)
    have ni: "set (newParentRules st rid parents) \<inter> set (rule_ids_children chs) = {}"
      using d i by (auto simp: newParentRules_def)
    from m consider (here) d' where "m = entry_of md5 st rid parents d'"
      | (below) "m \<in> set (collect_children md5 st chs (newParentRules st rid parents))"
      by auto
    then show "distinct (parentRules m)"
    proof cases
      case here
      then show ?thesis using np by (simp add: entry_of_def)
    next
      case below
      then show ?thesis using "1.IH" d np ni by simp
    qed
  qed
next
  case (2 md5 st parents)
  show ?case by simp
next
  case (3 md5 st c chs parents)
  show ?case
  proof (intro impI ballI)
    fix m
    assume d: "distinct (rule_ids_children (c # chs))" and p: "distinct parents"
      and i: "set parents \<inter> set (rule_ids_children (c # chs)) = {}"
      and m: "m \<in> set (collect_children md5 st (c # chs) parents)"
    from m consider "m \<in> set (collect md5 st c parents)"
      | "m \<in> set (collect_children md5 st chs parents)" by auto
    then show "distinct (parentRules m)"
    proof cases
      case 1
      moreover have "distinct (rule_ids c)" "set parents \<inter> set (rule_ids c) = {}"
        using d i by auto
      ultimately show ?thesis using "3.IH"(1) p by blast
    next
      case 2
      moreover have "distinct (rule_ids_children chs)" "set parents \<inter> set (rule_ids_children chs) = {}"
        using d i by auto
      ultimately show ?thesis using "3.IH"(2) p by blast
    qed
  qed
qed

lemma search_top_chain_distinct:
  assumes "distinct (refs_of r)" and "m \<in> set (entries_of (search md5 st r [] []))"
  shows "distinct (parentRules m)"
  using assms collect_chain_distinct(1) [of r "[]" md5 st] distinct_refs_rule_ids(1) [of r]
  by (simp add: search_top_entries)




section \<open>Reconciliation: the claims\<close>

subsection \<open>Nothing advanced in the new tree\<close>

lemma visit_plain: "\<not> is_advanced d \<Longrightarrow> visit md5 st rid parents found d = found"
  by (simp add: visit_def)

lemma foldl_visit_plain:
  "\<forall>d \<in> set ds. \<not> is_advanced d \<Longrightarrow> foldl (visit md5 st rid parents) found ds = found"
  by (induction ds arbitrary: found) (simp_all add: visit_plain)

lemma search_plain:
  "(\<forall>d \<in> set (directives_of r). \<not> is_advanced d) \<longrightarrow> search md5 st r parents found = found"
  "(\<forall>d \<in> set (directives_of_children rs). \<not> is_advanced d) \<longrightarrow>
     search_children md5 st rs parents found = found"
proof (induction md5 st r parents found and md5 st rs parents found
       rule: search_search_children.induct)
  case (1 md5 st rid nm bs cs chs parents found)
  show ?case
  proof
    assume h: "\<forall>d \<in> set (directives_of (Rule rid nm bs cs chs)). \<not> is_advanced d"
    then have "foldl (visit md5 st rid parents) found (bs @ cs) = found"
      by (intro foldl_visit_plain) auto
    moreover from h have "\<forall>d \<in> set (directives_of_children chs). \<not> is_advanced d"
      by auto
    ultimately show "search md5 st (Rule rid nm bs cs chs) parents found = found"
      using "1.IH" by simp
  qed
next
  case (2 md5 st parents found)
  show ?case by simp
next
  case (3 md5 st childRule chs parents found)
  show ?case
  proof
    assume h: "\<forall>d \<in> set (directives_of_children (childRule # chs)). \<not> is_advanced d"
    then have a: "search md5 st childRule parents found = found"
      using "3.IH"(1) by auto
    from h have "\<forall>d \<in> set (directives_of_children chs). \<not> is_advanced d" by auto
    then show "search_children md5 st (childRule # chs) parents found = found"
      using "3.IH"(2) a by simp
  qed
qed

text \<open>
  C5. If no behavior or criterion of the new tree is named \<^verbatim>\<open>advanced\<close> or
  \<^verbatim>\<open>matchAdvanced\<close>, reconciliation returns the reference to the new tree it was given and
  leaves the store as it was: no uuid of any object changes, and the rest of a tree is
  never written. This holds whatever the old tree is, so in particular for every pair of
  trees without advanced content.
\<close>

theorem merge_identity_without_advanced:
  assumes "\<forall>d \<in> set (directives_of newRules). \<not> is_advanced d"
  shows "mergeAdvancedUUIDRules md5 st oldRules newRules = (Inr (RuleObj (r_id newRules)), st)"
proof -
  have "search md5 st newRules [] [] = []"
    using assms search_plain(1) [of newRules md5 st "[]" "[]"] by simp
  then show ?thesis
    by (simp add: mergeAdvancedUUIDRules_def)
qed

theorem merge_identity_without_advanced_witness:
  "mergeAdvancedUUIDRules (\<lambda>s. s) sample_store plain_old plain_new =
     (Inr (RuleObj 0), sample_store)"
proof -
  have "\<forall>d \<in> set (directives_of plain_new). \<not> is_advanced d"
    by (simp add: plain_new_def is_advanced_def)
  from merge_identity_without_advanced [OF this, of "\<lambda>s. s" sample_store plain_old]
  show ?thesis by (simp add: plain_new_def)
qed

subsection \<open>The payload string that is hashed\<close>

text \<open>
  C6. The string that is hashed is the first non-empty one of \<^verbatim>\<open>xml\<close>, \<^verbatim>\<open>'' + openXml\<close> and
  \<^verbatim>\<open>'' + closeXml\<close>, not their concatenation. Two behaviors with the same \<^verbatim>\<open>xml\<close> and
  different \<^verbatim>\<open>openXml\<close> and \<^verbatim>\<open>closeXml\<close> get the same payload string, hence the same
  digest whatever the digest function is, and land in one group, although their
  concatenated payloads differ; and an absent field contributes the text \<^verbatim>\<open>undefined\<close>
  where it is reached, not the empty string.
\<close>

theorem contentHash_first_nonempty_field:
  "adv_xml wrapped_b = ''<a/>'' \<and> adv_xml wrapped_c = ''<a/>'' \<and>
   spec_payload wrapped_b = ''<a/><b></b>'' \<and> spec_payload wrapped_c = ''<a/><c></c>'' \<and>
   map fst (search md5 sample_store wrapped_tree [] []) = [md5 ''<a/>''] \<and>
   map advNode (group_of (search md5 sample_store wrapped_tree [] []) (md5 ''<a/>'')) = [10, 11] \<and>
   adv_xml \<lparr> xml = None, openXml = None, closeXml = Some ''</b>'' \<rparr> = ''undefined'' \<and>
   spec_payload \<lparr> xml = None, openXml = None, closeXml = Some ''</b>'' \<rparr> = ''</b>''"
  by (simp add: adv_xml_def spec_payload_def js_concat_empty_def wrapped_b_def wrapped_c_def
        wrapped_tree_def sample_store_def visit_def is_advanced_def entry_of_def
        newParentRules_def push_found_def group_of_def)

subsection \<open>The sample trees, searched\<close>

lemma sample_searches:
  "search (\<lambda>s. s) sample_store adv_old [] [] = [(''<x/>'', [adv_old_entry])]"
  "search (\<lambda>s. s) sample_store adv_new [] [] = [(''<x/>'', [adv_new_entry])]"
  "search (\<lambda>s. s) sample_store unmatched_new [] [] = [(''<y/>'', [unmatched_new_entry])]"
  by (simp_all add: adv_old_def adv_new_def unmatched_new_def sample_store_def visit_def
        is_advanced_def entry_of_def newParentRules_def push_found_def adv_xml_def
        js_concat_empty_def plain_options_def
        adv_old_entry_def adv_new_entry_def unmatched_new_entry_def)

lemma sample_entries:
  "entries_of (search (\<lambda>s. s) sample_store adv_old [] []) = [adv_old_entry]"
  "entries_of (search (\<lambda>s. s) sample_store adv_new [] []) = [adv_new_entry]"
  "entries_of (search (\<lambda>s. s) sample_store unmatched_new [] []) = [unmatched_new_entry]"
  by (simp_all add: sample_searches entries_of_def)

subsection \<open>An advanced directive the old tree cannot match\<close>



lemma uuid_propagation_single:
  assumes old1: "entries_of (search md5 st oldRules [] []) = [D]"
    and new1: "entries_of (search md5 st newRules [] []) = [D']"
    and payload: "fn_xml D' = fn_xml D"
    and depth: "length (parentRules D') = length (parentRules D)"
    and tree: "distinct (refs_of newRules)"
    and apart: "set (refs_of oldRules) \<inter> set (refs_of newRules) = {}"
  shows "fst (mergeAdvancedUUIDRules md5 st oldRules newRules) = Inr (RuleObj (r_id newRules)) \<and>
     snd (mergeAdvancedUUIDRules md5 st oldRules newRules) (DirectiveObj (advNode D')) =
       st (DirectiveObj (advNode D)) \<and>
     (\<forall>i < length (parentRules D').
        snd (mergeAdvancedUUIDRules md5 st oldRules newRules) (RuleObj (parentRules D' ! i)) =
          st (RuleObj (parentRules D ! i))) \<and>
     snd (snd (forEach_keys (search md5 st newRules [] []) st (search md5 st oldRules [] []))) =
       [(fn_md5 D, [])]"
proof -
  let ?new = "search md5 st newRules [] []"
  let ?old = "search md5 st oldRules [] []"
  have inD: "D \<in> set (entries_of ?old)" and inD': "D' \<in> set (entries_of ?new)"
    using old1 new1 by simp_all
  have separate: "distinct (parentRules D')" "set (parentRules D) \<inter> set (parentRules D') = {}"
  proof -
    show "distinct (parentRules D')" using tree inD' by (rule search_top_chain_distinct)
    show "set (parentRules D) \<inter> set (parentRules D') = {}"
    proof (rule ccontr)
      assume "set (parentRules D) \<inter> set (parentRules D') \<noteq> {}"
      then obtain p where "p \<in> set (parentRules D)" "p \<in> set (parentRules D')" by blast
      then have "RuleObj p \<in> set (refs_of oldRules)" "RuleObj p \<in> set (refs_of newRules)"
        using search_top_objects(2) [OF inD] search_top_objects(2) [OF inD'] by simp_all
      then show False using apart by blast
    qed
  qed
  have o: "?old = [(fn_md5 D, [D])]"
    using search_top_wf old1 by (rule wf_found_single)
  have n: "?new = [(fn_md5 D', [D'])]"
    using search_top_wf new1 by (rule wf_found_single)
  have "fn_md5 D = md5 (fn_xml D)" "fn_md5 D' = md5 (fn_xml D')"
    using search_top_md5 [of D md5 st oldRules] search_top_md5 [of D' md5 st newRules] old1 new1
    by simp_all
  then have k: "fn_md5 D' = fn_md5 D" using payload by simp
  have me: "match_entry (fn_md5 D) D' st [(fn_md5 D, [D])] =
      Inr (copy_uuids st D' D, [(fn_md5 D, [])])"
    using depth by (simp add: match_entry_def group_of_def same_depth_def)
  have fk: "forEach_keys ?new st ?old = (None, copy_uuids st D' D, [(fn_md5 D, [])])"
    by (simp add: o n k me)
  then have m: "mergeAdvancedUUIDRules md5 st oldRules newRules =
      (Inr (RuleObj (r_id newRules)), copy_uuids st D' D)"
    by (simp add: mergeAdvancedUUIDRules_def)
  have d: "copy_uuids st D' D (DirectiveObj (advNode D')) = st (DirectiveObj (advNode D))"
    by (simp add: copy_uuids_def Let_def copy_chain_directive)
  have c: "copy_uuids st D' D (RuleObj (parentRules D' ! i)) = st (RuleObj (parentRules D ! i))"
    if "i < length (parentRules D')" for i
    using copy_chain_nth [OF depth separate that, of st] by (simp add: copy_uuids_def Let_def)
  show ?thesis using m fk d c by simp
qed

subsection \<open>One advanced directive on each side\<close>

lemma merge_served_once:
  assumes "fst (mergeAdvancedUUIDRules md5 st oldRules newRules) = Inr r"
  shows "length (filter (same_class m) (entries_of (search md5 st newRules [] []))) \<le>
         length (filter (same_class m) (entries_of (search md5 st oldRules [] [])))"
proof (cases rule: merge_cases [of md5 st newRules oldRules])
  case (fail e st' old')
  then show ?thesis using assms by simp
next
  case (ok st' old')
  from forEach_keys_served_once [OF ok(1) search_top_wf search_top_wf] show ?thesis .
qed

text \<open>
  C4. Let the old tree hold exactly one advanced directive, collected as the entry \<open>D\<close>,
  and the new tree exactly one, collected as \<open>D'\<close>, with the same payload string and chains
  of the same length (the claim's case is length 2); every object of the new tree occurs
  in it once and none of them is an object of the old tree. Then reconciliation returns
  the new tree, and afterwards the directive of \<open>D'\<close> carries the uuid the directive of \<open>D\<close>
  had, and the rule at each position of the chain of \<open>D'\<close> carries the uuid the rule at
  the same position of the chain of \<open>D\<close> had. The chain is \<^verbatim>\<open>parentRules\<close>: the enclosing
  rules from the outside in, without those whose uuid is \<^verbatim>\<open>default\<close> (the root). The old
  entry is then gone from the old dictionary.

  An old entry serves at most one new entry: whenever reconciliation returns, the new
  tree has, for every digest and depth, no more entries than the old tree.
\<close>

theorem uuid_propagation:
  "(entries_of (search md5 st oldRules [] []) = [D] \<and>
    entries_of (search md5 st newRules [] []) = [D'] \<and>
    fn_xml D' = fn_xml D \<and>
    length (parentRules D') = length (parentRules D) \<and>
    distinct (refs_of newRules) \<and>
    set (refs_of oldRules) \<inter> set (refs_of newRules) = {} \<longrightarrow>
      fst (mergeAdvancedUUIDRules md5 st oldRules newRules) = Inr (RuleObj (r_id newRules)) \<and>
      snd (mergeAdvancedUUIDRules md5 st oldRules newRules) (DirectiveObj (advNode D')) =
        st (DirectiveObj (advNode D)) \<and>
      (\<forall>i < length (parentRules D').
         snd (mergeAdvancedUUIDRules md5 st oldRules newRules) (RuleObj (parentRules D' ! i)) =
           st (RuleObj (parentRules D ! i))) \<and>
      snd (snd (forEach_keys (search md5 st newRules [] []) st (search md5 st oldRules [] []))) =
        [(fn_md5 D, [])]) \<and>
   (fst (mergeAdvancedUUIDRules md5 st oldRules newRules) = Inr r \<longrightarrow>
      length (filter (same_class m) (entries_of (search md5 st newRules [] []))) \<le>
      length (filter (same_class m) (entries_of (search md5 st oldRules [] []))))"
  using uuid_propagation_single [of md5 st oldRules D newRules D']
        merge_served_once [of md5 st oldRules newRules r m]
  by blast

theorem uuid_propagation_witness:
  "fst (mergeAdvancedUUIDRules (\<lambda>s. s) sample_store adv_old adv_new) = Inr (RuleObj 0) \<and>
   snd (mergeAdvancedUUIDRules (\<lambda>s. s) sample_store adv_old adv_new) (DirectiveObj 12) =
     Some ''old-b112'' \<and>
   snd (mergeAdvancedUUIDRules (\<lambda>s. s) sample_store adv_old adv_new) (RuleObj 1) = Some ''old-101'' \<and>
   snd (mergeAdvancedUUIDRules (\<lambda>s. s) sample_store adv_old adv_new) (RuleObj 2) = Some ''old-102'' \<and>
   snd (snd (forEach_keys (search (\<lambda>s. s) sample_store adv_new [] []) sample_store
               (search (\<lambda>s. s) sample_store adv_old [] []))) = [(''<x/>'', [])] \<and>
   length (filter (same_class adv_new_entry) (entries_of (search (\<lambda>s. s) sample_store adv_new [] []))) \<le>
   length (filter (same_class adv_new_entry) (entries_of (search (\<lambda>s. s) sample_store adv_old [] [])))"
proof -
  let ?m = "mergeAdvancedUUIDRules (\<lambda>s. s) sample_store adv_old adv_new"
  note T = uuid_propagation [of "\<lambda>s. s" sample_store adv_old adv_old_entry adv_new adv_new_entry
                                "RuleObj 0" adv_new_entry]
  have prem: "entries_of (search (\<lambda>s. s) sample_store adv_old [] []) = [adv_old_entry] \<and>
    entries_of (search (\<lambda>s. s) sample_store adv_new [] []) = [adv_new_entry] \<and>
    fn_xml adv_new_entry = fn_xml adv_old_entry \<and>
    length (parentRules adv_new_entry) = length (parentRules adv_old_entry) \<and>
    distinct (refs_of adv_new) \<and>
    set (refs_of adv_old) \<inter> set (refs_of adv_new) = {}"
  proof -
    have "distinct (refs_of adv_new)" "set (refs_of adv_old) \<inter> set (refs_of adv_new) = {}"
      by (simp_all add: adv_old_def adv_new_def)
    then show ?thesis
      by (simp add: sample_entries adv_old_entry_def adv_new_entry_def)
  qed
  from T prem have
    a: "fst ?m = Inr (RuleObj (r_id adv_new))" and
    b: "snd ?m (DirectiveObj (advNode adv_new_entry)) = sample_store (DirectiveObj (advNode adv_old_entry))" and
    c: "\<forall>i < length (parentRules adv_new_entry).
         snd ?m (RuleObj (parentRules adv_new_entry ! i)) =
           sample_store (RuleObj (parentRules adv_old_entry ! i))" and
    d: "snd (snd (forEach_keys (search (\<lambda>s. s) sample_store adv_new [] []) sample_store
               (search (\<lambda>s. s) sample_store adv_old [] []))) = [(fn_md5 adv_old_entry, [])]"
    by blast+
  from a have a': "fst ?m = Inr (RuleObj 0)" by (simp add: adv_new_def)
  with T have e: "length (filter (same_class adv_new_entry) (entries_of (search (\<lambda>s. s) sample_store adv_new [] []))) \<le>
   length (filter (same_class adv_new_entry) (entries_of (search (\<lambda>s. s) sample_store adv_old [] [])))"
    by blast
  have c0: "snd ?m (RuleObj (parentRules adv_new_entry ! 0)) =
           sample_store (RuleObj (parentRules adv_old_entry ! 0))"
    by (rule c [rule_format]) (simp add: adv_new_entry_def)
  have c1: "snd ?m (RuleObj (parentRules adv_new_entry ! 1)) =
           sample_store (RuleObj (parentRules adv_old_entry ! 1))"
    by (rule c [rule_format]) (simp add: adv_new_entry_def)
  show ?thesis
    using a' b c0 c1 d e
    by (simp add: adv_new_entry_def adv_old_entry_def sample_store_def)
qed

subsection \<open>What a successful reconciliation writes\<close>

text \<open>
  C10. Whenever reconciliation returns (does not throw):
  \<^item> it returns the reference to the new tree it was given;
  \<^item> the only thing it changed is the uuid of objects that are the directive or a rule of
    the chain of an advanced entry of the new tree (all of them were matched, since it
    returned); every such object belongs to the new tree;
  \<^item> no rule whose uuid is \<^verbatim>\<open>default\<close> changes: the root of a tree, which carries that
    uuid in the data model, is never written;
  \<^item> the old tree is left as it was, provided it shares no object with the new tree.
  The other fields of the trees are not in the store: the function never assigns them.
\<close>

theorem merge_frame:
  assumes ok: "mergeAdvancedUUIDRules md5 st oldRules newRules = (Inr r, st')"
  shows "r = RuleObj (r_id newRules) \<and>
     (\<forall>ob. st' ob \<noteq> st ob \<longrightarrow>
        (\<exists>m \<in> set (entries_of (search md5 st newRules [] [])). ob \<in> objects_of m)) \<and>
     (\<forall>ob. st' ob \<noteq> st ob \<longrightarrow> ob \<in> set (refs_of newRules)) \<and>
     (\<forall>rid. st (RuleObj rid) = Some ''default'' \<longrightarrow> st' (RuleObj rid) = Some ''default'') \<and>
     (set (refs_of oldRules) \<inter> set (refs_of newRules) = {} \<longrightarrow>
        (\<forall>ob \<in> set (refs_of oldRules). st' ob = st ob))"
proof -
  let ?new = "search md5 st newRules [] []"
  let ?old = "search md5 st oldRules [] []"
  have wn: "wf_found ?new" by (rule search_top_wf)
  obtain old' where fk: "forEach_keys ?new st ?old = (None, st', old')"
    and r: "r = RuleObj (r_id newRules)"
    using ok by (cases rule: merge_cases [of md5 st newRules oldRules]) auto
  have written: "\<exists>m \<in> set (entries_of ?new). ob \<in> objects_of m" if "st' ob \<noteq> st ob" for ob
  proof (rule ccontr)
    assume no: "\<not> (\<exists>m \<in> set (entries_of ?new). ob \<in> objects_of m)"
    have "st' ob = st ob"
      using fk
    proof (rule forEach_keys_frame)
      show "\<forall>(key, es)\<in>set ?new. \<forall>m\<in>set es.
          (\<exists>x\<in>set (group_of ?old key). same_depth m x) \<longrightarrow> ob \<notin> objects_of m"
        using no wf_found_member [OF wn] by blast
    qed
    with that show False by simp
  qed
  have inside: "ob \<in> set (refs_of newRules) \<and> (\<forall>rid. ob = RuleObj rid \<longrightarrow> st ob \<noteq> Some ''default'')"
    if "st' ob \<noteq> st ob" for ob
  proof -
    from written [OF that] obtain m where m: "m \<in> set (entries_of ?new)" "ob \<in> objects_of m"
      by blast
    then show ?thesis
      using search_top_objects [OF m(1)] by (auto simp: objects_of_def)
  qed
  have c4: "st' (RuleObj rid) = Some ''default''" if "st (RuleObj rid) = Some ''default''" for rid
    using inside [of "RuleObj rid"] that by auto
  have c5: "\<forall>ob \<in> set (refs_of oldRules). st' ob = st ob"
    if "set (refs_of oldRules) \<inter> set (refs_of newRules) = {}"
    using inside that by blast
  show ?thesis using r written inside c4 c5 by blast
qed

theorem merge_frame_witness:
  "snd (mergeAdvancedUUIDRules (\<lambda>s. s) sample_store adv_old adv_new) (RuleObj 0) = Some ''default'' \<and>
   snd (mergeAdvancedUUIDRules (\<lambda>s. s) sample_store adv_old adv_new) (RuleObj 102) = Some ''old-102'' \<and>
   snd (mergeAdvancedUUIDRules (\<lambda>s. s) sample_store adv_old adv_new) (DirectiveObj 112) = Some ''old-b112'' \<and>
   snd (mergeAdvancedUUIDRules (\<lambda>s. s) sample_store adv_old adv_new) (DirectiveObj 10) = Some ''new-b10''"
proof -
  let ?m = "mergeAdvancedUUIDRules (\<lambda>s. s) sample_store adv_old adv_new"
  have new: "entries_of (search (\<lambda>s. s) sample_store adv_new [] []) = [adv_new_entry]"
    by (simp add: sample_entries)
  have "r_id adv_new = 0" by (simp add: adv_new_def)
  then have "fst ?m = Inr (RuleObj 0)"
    by (simp add: mergeAdvancedUUIDRules_def sample_searches match_entry_def group_of_def
          same_depth_def adv_new_entry_def adv_old_entry_def)
  then have ok: "?m = (Inr (RuleObj 0), snd ?m)" by (metis prod.collapse)
  note T = merge_frame [OF ok]
  have disj: "set (refs_of adv_old) \<inter> set (refs_of adv_new) = {}"
    by (simp add: adv_old_def adv_new_def)
  from T have "snd ?m (RuleObj 0) = Some ''default''"
    by (simp add: sample_store_def)
  moreover from T disj have "\<forall>ob \<in> set (refs_of adv_old). snd ?m ob = sample_store ob"
    by blast
  then have "snd ?m (RuleObj 102) = sample_store (RuleObj 102)"
    and "snd ?m (DirectiveObj 112) = sample_store (DirectiveObj 112)"
    by (simp_all add: adv_old_def)
  moreover have "snd ?m (DirectiveObj 10) = sample_store (DirectiveObj 10)"
  proof (rule ccontr)
    assume "snd ?m (DirectiveObj 10) \<noteq> sample_store (DirectiveObj 10)"
    with T have "\<exists>m \<in> set (entries_of (search (\<lambda>s. s) sample_store adv_new [] [])).
        DirectiveObj 10 \<in> objects_of m" by blast
    then show False by (simp add: new objects_of_def adv_new_entry_def)
  qed
  ultimately show ?thesis by (simp add: sample_store_def)
qed

lemmas sample_defs =
  sample_constants_def no_property_def sample_property_def literal_record_def named_state_def
  sample_state_def new_state_def no_payload_def status_body_def status_response_def
  created_body_def created_response_def warning_body_def warning_response_def
  not_active_body_def not_active_response_def

lemmas char_defs = word_char_def lower_char_def upper_char_def digit_char_def id_char_def

section \<open>The lookup cache: the claims\<close>

subsection \<open>A record passes through\<close>

lemma getProperty_Record:
  "truthy (groupId (objects s r)) \<Longrightarrow> truthy (propertyId (objects s r)) \<Longrightarrow>
   truthy (contractId (objects s r)) \<Longrightarrow> getProperty c (Record r) env s = (Resolved r, s)"
  by (simp add: getProperty_def)

lemma getProperty_Record_without_propertyId:
  "propertyId (objects s r) = None \<Longrightarrow> getProperty c (Record r) env s = (Threw, s)"
  by (simp add: getProperty_def truthy_def)



subsection \<open>Sanitizing a name\<close>

lemma sanitize_sample: "sanitize ''my example.com'' = ''my_example.com''"
  by (simp add: sanitize_def char_defs)

lemma getProperty_Name_cached:
  assumes "init s = (Resolved (), s1)" and "cache_lookup c (sanitize given) env s1 = Some p"
  shows "getProperty c (Name given) env s = (Resolved p, s1)"
  using assms by (simp add: getProperty_def then_do_def in_then_def)

lemma getProperty_Name_unknown:
  assumes "init s = (Resolved (), s1)" and "cache_lookup c (sanitize given) env s1 = None"
    and "\<not> js_includes (sanitize given) ''prp_''"
  shows "getProperty c (Name given) env s =
     (Rejected (RejMessage (''Cannot find property:  '' @ sanitize given)), s1)"
  using assms by (simp add: getProperty_def then_do_def in_then_def)

text \<open>
  C8, as stated, fails: the dot is one of the characters the rule keeps, so
  \<^verbatim>\<open>my example.com\<close> becomes \<^verbatim>\<open>my_example.com\<close>, and a record that the cache holds under
  \<^verbatim>\<open>my_example_com\<close> is not found.
\<close>

theorem sanitize_counterexample:
  "sanitize ''my example.com'' \<noteq> ''my_example_com'' \<and>
   getProperty sample_constants (Name ''my example.com'') (LV_STAGING sample_constants)
       (named_state ''my_example_com'' []) =
     (Rejected (RejMessage ''Cannot find property:  my_example.com''), named_state ''my_example_com'' [])"
proof -
  have i: "init (named_state ''my_example_com'' []) = (Resolved (), named_state ''my_example_com'' [])"
    by (simp add: init_def named_state_def)
  have l: "cache_lookup sample_constants (sanitize ''my example.com'') (LV_STAGING sample_constants)
      (named_state ''my_example_com'' []) = None"
    by (simp add: sanitize_sample cache_lookup_def named_state_def)
  have n: "\<not> js_includes (sanitize ''my example.com'') ''prp_''"
    by (simp add: sanitize_sample)
  show ?thesis
    using getProperty_Name_unknown [OF i l n] by (simp add: sanitize_sample)
qed

text \<open>
  C8, amended. The key \<^verbatim>\<open>my example.com\<close> is matched as \<^verbatim>\<open>my_example.com\<close>: every
  character outside \<^verbatim>\<open>[A-Za-z0-9._-]\<close> is replaced by an underscore, the others (the dot
  too) are kept, and it is the sanitized key that is looked up in the tables and that
  the rejection names.
\<close>

theorem sanitized_lookup:
  "sanitize ''my example.com'' = ''my_example.com'' \<and>
   length (sanitize given) = length given \<and>
   (\<forall>i < length given.
      sanitize given ! i =
        (if word_char (given ! i) \<or> given ! i = CHR ''.'' \<or> given ! i = CHR ''-''
         then given ! i else CHR ''_'')) \<and>
   (init s = (Resolved (), s1) \<and> cache_lookup c (sanitize given) env s1 = Some p \<longrightarrow>
      getProperty c (Name given) env s = (Resolved p, s1)) \<and>
   (init s = (Resolved (), s1) \<and> cache_lookup c (sanitize given) env s1 = None \<and>
    \<not> js_includes (sanitize given) ''prp_'' \<longrightarrow>
      getProperty c (Name given) env s =
        (Rejected (RejMessage (''Cannot find property:  '' @ sanitize given)), s1))"
  using getProperty_Name_cached [of s s1 c given env p] getProperty_Name_unknown [of s s1 c given env]
  by (simp add: sanitize_sample) (simp add: sanitize_def)

theorem sanitized_lookup_witness:
  "getProperty sample_constants (Name ''my example.com'') (LV_STAGING sample_constants)
       (sample_state []) = (Resolved 5, sample_state []) \<and>
   propertyByName (sample_state []) = [(''my_example.com'', 5)] \<and>
   sanitize ''my example.com'' ! 2 = CHR ''_'' \<and> sanitize ''my example.com'' ! 10 = CHR ''.''"
proof -
  note T = sanitized_lookup [of "''my example.com''" "sample_state []" "sample_state []"
      sample_constants "LV_STAGING sample_constants" 5]
  have i: "init (sample_state []) = (Resolved (), sample_state [])"
    by (simp add: init_def sample_state_def named_state_def)
  have l: "cache_lookup sample_constants (sanitize ''my example.com'') (LV_STAGING sample_constants)
      (sample_state []) = Some 5"
    by (simp add: sanitize_sample cache_lookup_def sample_state_def named_state_def)
  from T i l have a: "getProperty sample_constants (Name ''my example.com'') (LV_STAGING sample_constants)
       (sample_state []) = (Resolved 5, sample_state [])" by blast
  from T have b: "\<forall>i < length ''my example.com''.
      sanitize ''my example.com'' ! i =
        (if word_char (''my example.com'' ! i) \<or> ''my example.com'' ! i = CHR ''.'' \<or>
            ''my example.com'' ! i = CHR ''-''
         then ''my example.com'' ! i else CHR ''_'')" by blast
  have b2: "sanitize ''my example.com'' ! 2 = CHR ''_''"
    using b [rule_format, of 2] by (simp add: char_defs)
  have b10: "sanitize ''my example.com'' ! 10 = CHR ''.''"
    using b [rule_format, of 10] by (simp add: char_defs)
  show ?thesis using a b2 b10 by (simp add: sample_state_def named_state_def)
qed

section \<open>Activation, deactivation and polling: the claims\<close>

subsection \<open>Deactivating a version that is not active\<close>

lemma deactivateProperty_not_active:
  assumes "getProperty c propertyLookup (LV_STAGING c) s = (Resolved data, s1)"
    and "responses s1 = Some response # rest"
    and "statusCode response < 200 \<or> 400 < statusCode response"
    and "js_includes (rs_body response) ''property_version_not_active''"
  shows "deactivateProperty c propertyLookup versionId env the_notes email s =
     (Resolved None, after_send s1 (deactivation_request (objects s1 data) versionId env email) rest)"
  using assms by (auto simp: deactivateProperty_def send_def after_send_def)

lemma deactivateProperty_in_range:
  assumes "getProperty c propertyLookup (LV_STAGING c) s = (Resolved data, s1)"
    and "responses s1 = Some response # rest"
    and "200 \<le> statusCode response" and "statusCode response \<le> 400"
    and "json response = Some parsed" and "activation_id_of parsed = None"
  shows "deactivateProperty c propertyLookup versionId env the_notes email s =
     (Rejected (RejParsed parsed),
      after_send s1 (deactivation_request (objects s1 data) versionId env email) rest)"
  using assms by (auto simp: deactivateProperty_def send_def after_send_def)

lemma deactivate_Record_not_active:
  assumes ids: "truthy (groupId (objects s r))" "truthy (propertyId (objects s r))"
      "truthy (contractId (objects s r))"
    and "responses s = Some response # rest"
    and "statusCode response < 200 \<or> 400 < statusCode response"
    and "js_includes (rs_body response) ''property_version_not_active''"
  shows "deactivate c (Record r) networkEnv the_notes email wait s =
     (Resolved Nothing,
      after_send s (deactivation_request (objects s r)
                      (Some (deactivationVersion c (objects s r) networkEnv)) networkEnv email) rest)"
proof -
  have g: "getProperty c (Record r) (LV_STAGING c) s = (Resolved r, s)"
    using ids by (rule getProperty_Record)
  show ?thesis
    unfolding deactivate_def
    by (simp add: then_do_def g Let_def in_then_def
          deactivateProperty_not_active [OF g assms(4,5,6)])
qed

text \<open>
  C9, as stated, fails: the status is tested first. A response with status 400 whose body
  says \<^verbatim>\<open>property_version_not_active\<close> is parsed, has no activation link, and the call is
  rejected with the parsed body.
\<close>

theorem deactivate_not_active_400_rejects:
  "js_includes (rs_body (not_active_response 400)) ''property_version_not_active'' \<and>
   fst (deactivateProperty sample_constants (Record 5) (Some 2) ''STAGING'' [] [''test@example.com'']
          (sample_state [Some (not_active_response 400)])) = Rejected (RejParsed not_active_body) \<and>
   fst (deactivate sample_constants (Record 5) ''STAGING'' [] [''test@example.com''] True
          (sample_state [Some (not_active_response 400)])) = Rejected (RejParsed not_active_body)"
proof -
  let ?s = "sample_state [Some (not_active_response 400)]"
  have g: "getProperty sample_constants (Record 5) (LV_STAGING sample_constants) ?s = (Resolved 5, ?s)"
    by (rule getProperty_Record) (simp_all add: sample_defs truthy_def)
  have r: "responses ?s = Some (not_active_response 400) # []" by (simp add: sample_defs)
  have a: "activation_id_of not_active_body = None"
    by (simp add: activation_id_of_def not_active_body_def no_payload_def)
  have d: "deactivateProperty sample_constants (Record 5) v ''STAGING'' [] [''test@example.com''] ?s =
     (Rejected (RejParsed not_active_body),
      after_send ?s (deactivation_request (objects ?s 5) v ''STAGING'' [''test@example.com'']) [])" for v
    by (rule deactivateProperty_in_range [OF g r _ _ _ a]) (simp_all add: not_active_response_def)
  have "js_includes (rs_body (not_active_response 400)) ''property_version_not_active''"
    by (simp add: not_active_response_def)
  moreover have "fst (deactivate sample_constants (Record 5) ''STAGING'' [] [''test@example.com''] True ?s) =
      Rejected (RejParsed not_active_body)"
    by (simp add: deactivate_def then_do_def g Let_def in_then_def d)
  ultimately show ?thesis by (simp add: d)
qed

text \<open>
  C9, amended. When the response to the deactivation request has a status below 200 or
  above 400 and its body contains \<^verbatim>\<open>property_version_not_active\<close>, \<^verbatim>\<open>_deactivateProperty\<close>
  resolves (with nothing), having sent exactly that one request; and \<^verbatim>\<open>deactivate\<close>, for
  a record, resolves with nothing as well, sends nothing more (no polling, no second
  request) and leaves the record's versions as they were.
\<close>

theorem deactivate_not_active_resolves:
  "(getProperty c propertyLookup (LV_STAGING c) s = (Resolved data, s1) \<and>
    responses s1 = Some response # rest \<and>
    (statusCode response < 200 \<or> 400 < statusCode response) \<and>
    js_includes (rs_body response) ''property_version_not_active'' \<longrightarrow>
      deactivateProperty c propertyLookup versionId env the_notes email s =
        (Resolved None,
         after_send s1 (deactivation_request (objects s1 data) versionId env email) rest)) \<and>
   (truthy (groupId (objects s r)) \<and> truthy (propertyId (objects s r)) \<and>
    truthy (contractId (objects s r)) \<and>
    responses s = Some response # rest \<and>
    (statusCode response < 200 \<or> 400 < statusCode response) \<and>
    js_includes (rs_body response) ''property_version_not_active'' \<longrightarrow>
      deactivate c (Record r) networkEnv the_notes email wait s =
        (Resolved Nothing,
         after_send s (deactivation_request (objects s r)
                         (Some (deactivationVersion c (objects s r) networkEnv)) networkEnv email) rest))"
  using deactivateProperty_not_active [of c propertyLookup s data s1 response rest versionId env the_notes email]
        deactivate_Record_not_active [of s r response rest c networkEnv the_notes email wait]
  by blast

theorem deactivate_not_active_resolves_witness:
  "fst (deactivateProperty sample_constants (Record 5) (Some 2) ''STAGING'' [] [''test@example.com'']
          (sample_state [Some (not_active_response 422)])) = Resolved None \<and>
   fst (deactivate sample_constants (Record 5) ''STAGING'' [] [''test@example.com''] True
          (sample_state [Some (not_active_response 422)])) = Resolved Nothing \<and>
   length (requests (snd (deactivate sample_constants (Record 5) ''STAGING'' [] [''test@example.com''] True
          (sample_state [Some (not_active_response 422)])))) = 1"
proof -
  let ?s = "sample_state [Some (not_active_response 422)]"
  note T = deactivate_not_active_resolves [of sample_constants "Record 5" ?s 5 ?s
      "not_active_response 422" "[]" "Some 2" "''STAGING''" "[]" "[''test@example.com'']" 5
      "''STAGING''" True]
  have g: "getProperty sample_constants (Record 5) (LV_STAGING sample_constants) ?s = (Resolved 5, ?s)"
    by (rule getProperty_Record) (simp_all add: sample_defs truthy_def)
  have r: "responses ?s = Some (not_active_response 422) # []" by (simp add: sample_defs)
  have c: "statusCode (not_active_response 422) < 200 \<or> 400 < statusCode (not_active_response 422)"
    by (simp add: not_active_response_def)
  have i: "js_includes (rs_body (not_active_response 422)) ''property_version_not_active''"
    by (simp add: not_active_response_def)
  have t: "truthy (groupId (objects ?s 5)) \<and> truthy (propertyId (objects ?s 5)) \<and>
    truthy (contractId (objects ?s 5))"
    by (simp add: sample_defs truthy_def)
  from T g r c i have a: "deactivateProperty sample_constants (Record 5) (Some 2) ''STAGING'' []
      [''test@example.com''] ?s =
        (Resolved None,
         after_send ?s (deactivation_request (objects ?s 5) (Some 2) ''STAGING'' [''test@example.com'']) [])"
    by blast
  from T t r c i have b: "deactivate sample_constants (Record 5) ''STAGING'' []
      [''test@example.com''] True ?s =
         (Resolved Nothing,
          after_send ?s (deactivation_request (objects ?s 5)
             (Some (deactivationVersion sample_constants (objects ?s 5) ''STAGING''))
             ''STAGING'' [''test@example.com'']) [])"
    by blast
  have "requests ?s = []" by (simp add: sample_defs)
  then show ?thesis by (simp add: a b after_send_def)
qed

subsection \<open>Unacknowledged warnings\<close>

text \<open>
  C1. The service answers the first request with the warnings w1 and w2, the second
  (which acknowledges both) with another warning w3, and the third with an activation
  link. \<^verbatim>\<open>_activateProperty\<close> does not fail at the second warning set: it sends a third
  request, which acknowledges w3 only, and resolves with the activation id. Nothing
  bounds the number of resubmissions (line 898 says so: "check that this doesn't happen
  more than once").
\<close>

theorem activateProperty_retries_every_warning_set:
  "fst (activateProperty sample_constants (Record 5) (Some 3) ''STAGING'' [] [''test@example.com''] []
          (sample_state [Some (warning_response [''w1'', ''w2'']), Some (warning_response [''w3'']),
                         Some created_response])) = Resolved ''atv_1'' \<and>
   map acknowledged_in
     (requests (snd (activateProperty sample_constants (Record 5) (Some 3) ''STAGING'' []
          [''test@example.com''] []
          (sample_state [Some (warning_response [''w1'', ''w2'']), Some (warning_response [''w3'']),
                         Some created_response])))) =
     [Some [], Some [''w1'', ''w2''], Some [''w3'']]"
  by (simp add: activateProperty.simps getProperty_Record truthy_def send_def sample_defs
        warnings_not_acknowledged_def activation_id_of_def id_at_def char_defs in_then_def
        activation_request_def acknowledged_in_def)

subsection \<open>Polling\<close>













end
